theory Spec2Isabelle
  imports Complex_Main "HOL-Library.Word" "HOL-Library.Sublist" "HOL-Library.Signed_Division"
begin

section \<open>The DNS performance tester (main.go)\<close>

text \<open>
  The program parses its flags, starts \<open>concurrency\<close> worker goroutines, a goroutine that
  closes the result channel behind the workers' WaitGroup, a producer of work tokens and an
  aggregator of results, waits for the aggregator or for an interrupt, and prints statistics.
  The embedding has three layers:
  \<^item> the sequential functions (\<open>performDNSQuery\<close>, the flag handling at the head of
    \<open>main\<close>, the statistics at its end) as HOL functions whose panics and exits are values;
  \<^item> the goroutines as one step function over a record of the shared variables and one
    program counter per goroutine; an event names the goroutine that moves and carries what
    the outside world decides (the network's answers, the measured time);
  \<^item> runs as lists of events (schedules) from the state main has built when all goroutines
    are started.
\<close>

subsection \<open>Values\<close>

type_synonym int64 = "64 word"
type_synonym uint16 = "16 word"
type_synonym byte = "8 word"

text \<open>Every way the Go runtime can end the process in this program.\<close>

datatype panic =
    CreatingName          \<comment> \<open>\<open>dnsmessage.MustNewName\<close> on a name that does not fit\<close>
  | DivideByZero          \<comment> \<open>integer division by zero\<close>
  | MakeChanSize          \<comment> \<open>\<open>make(chan T, n)\<close> with \<open>n\<close> out of range\<close>
  | SendOnClosedChannel
  | CloseOfClosedChannel
  | NegativeWaitGroup     \<comment> \<open>\<open>wg.Done()\<close> below zero\<close>
  | OutOfMemory           \<comment> \<open>a fatal error of the runtime: the machine has no memory left\<close>

record QueryResult =
  Duration :: int64
  Success :: bool

subsection \<open>The query executor: \<open>performDNSQuery\<close>\<close>

text \<open>
  The message types of \<open>golang.org/x/net/dns/dnsmessage\<close>, as far as the program fills
  them in.
\<close>

record Question =
  Name :: string
  Type :: uint16
  Class :: uint16

record Message =
  ID :: uint16
  RecursionDesired :: bool
  Questions :: "Question list"

definition ClassINET :: uint16 where
  "ClassINET = 1"

text \<open>
  \<open>dnsmessage.Name\<close> stores a name in an array of 255 bytes: \<open>NewName\<close> returns an error for
  a longer string, and \<open>MustNewName\<close> panics on that error.
\<close>

definition nameLen :: nat where
  "nameLen = 255"

definition NewName :: "string \<Rightarrow> string option" where
  "NewName name = (if length name > nameLen then None else Some name)"

definition MustNewName :: "string \<Rightarrow> panic + string" where
  "MustNewName name = (case NewName name of None \<Rightarrow> Inl CreatingName | Some n \<Rightarrow> Inr n)"

text \<open>
  What the outside world decides during one attempt: whether the socket can be opened for an
  address, the random message id, the codec (\<open>Pack\<close>, \<open>Unpack\<close>: a black box to the program),
  whether the datagram can be written, the datagram read before the deadline (\<open>None\<close> for a
  timeout or a read error), and the time \<open>time.Since(start)\<close> measures at the return.
\<close>

record net_env =
  dial :: "string \<Rightarrow> bool"
  rand_id :: uint16
  pack :: "Message \<Rightarrow> byte list option"
  conn_write :: "byte list \<Rightarrow> bool"
  conn_read :: "byte list option"
  unpack :: "byte list \<Rightarrow> bool"
  since :: int64

text \<open>
  The calls on the connection and the lines written to the log, in order: the observable
  behaviour of one attempt.
\<close>

datatype effect =
    NetDial string
  | NetWrite "byte list"
  | NetSetReadDeadline
  | NetRead
  | NetClose
  | LogPrintf string

text \<open>Lines 35 to 44: the query message. The name is \<open>domain + "."\<close>.\<close>

definition buildQuery :: "uint16 \<Rightarrow> string \<Rightarrow> uint16 \<Rightarrow> panic + Message" where
  "buildQuery mid domain recordType =
     (case MustNewName (domain @ ''.'') of
        Inl p \<Rightarrow> Inl p
      | Inr n \<Rightarrow> Inr \<lparr>ID = mid, RecursionDesired = True,
                      Questions = [\<lparr>Name = n, Type = recordType, Class = ClassINET\<rparr>]\<rparr>)"

text \<open>
  \<open>resp := make([]byte, 512)\<close>; \<open>conn.Read(resp)\<close> fills its head with the datagram, and the
  whole buffer goes to \<open>Unpack\<close>.
\<close>

definition read_buffer :: "byte list \<Rightarrow> byte list" where
  "read_buffer dgram = take 512 (dgram @ replicate 512 0)"

definition failed :: "net_env \<Rightarrow> QueryResult" where
  "failed env = \<lparr>Duration = since env, Success = False\<rparr>"

definition succeeded :: "net_env \<Rightarrow> QueryResult" where
  "succeeded env = \<lparr>Duration = since env, Success = True\<rparr>"

text \<open>
  The function returns the calls it made on the network and either a panic or its
  \<open>QueryResult\<close>. The deferred \<open>conn.Close()\<close> runs on every exit after a successful dial,
  also when the function panics.
\<close>

definition performDNSQuery ::
    "net_env \<Rightarrow> string \<Rightarrow> string \<Rightarrow> uint16 \<Rightarrow> effect list \<times> (panic + QueryResult)" where
  "performDNSQuery env dnsServer domain recordType =
     (if \<not> dial env dnsServer
      then ([NetDial dnsServer, LogPrintf ''Error connecting to DNS server''],
            Inr (failed env))
      else case buildQuery (rand_id env) domain recordType of
        Inl p \<Rightarrow> ([NetDial dnsServer, NetClose], Inl p)
      | Inr m \<Rightarrow>
         (case pack env m of
            None \<Rightarrow>
              ([NetDial dnsServer, LogPrintf ''Error packing DNS message'', NetClose],
               Inr (failed env))
          | Some packed \<Rightarrow>
             if \<not> conn_write env packed
             then ([NetDial dnsServer, NetWrite packed, LogPrintf ''Error sending DNS query'',
                    NetClose],
                   Inr (failed env))
             else (case conn_read env of
                None \<Rightarrow>
                  ([NetDial dnsServer, NetWrite packed, NetSetReadDeadline, NetRead,
                    LogPrintf ''Error reading DNS response'', NetClose],
                   Inr (failed env))
              | Some dgram \<Rightarrow>
                  if \<not> unpack env (read_buffer dgram)
                  then ([NetDial dnsServer, NetWrite packed, NetSetReadDeadline, NetRead,
                         LogPrintf ''Error unpacking DNS response'', NetClose],
                        Inr (failed env))
                  else ([NetDial dnsServer, NetWrite packed, NetSetReadDeadline, NetRead,
                         NetClose],
                        Inr (succeeded env)))))"

text \<open>
  An example network, used to run examples. One server answers, at \<open>8.8.8.8:53\<close>; every
  other dial fails. The codec is one in the manner of \<open>dnsmessage\<close>: it packs a question
  whose name ends in a dot and has labels of 1 to 63 bytes (or is the root), as counted
  labels, and refuses every other name; it unpacks every datagram.
\<close>

fun split_dots :: "string \<Rightarrow> string \<Rightarrow> string list" where
  "split_dots seg [] = [seg]"
| "split_dots seg (c # cs) =
     (if c = CHR ''.'' then seg # split_dots [] cs else split_dots (seg @ [c]) cs)"

definition name_labels :: "string \<Rightarrow> string list" where
  "name_labels n = butlast (split_dots [] n)"

definition canonical_name :: "string \<Rightarrow> bool" where
  "canonical_name n =
     (n \<noteq> [] \<and> last n = CHR ''.'' \<and>
      (n = ''.'' \<or> list_all (\<lambda>l. l \<noteq> [] \<and> length l < 64) (name_labels n)))"

definition pack_name :: "string \<Rightarrow> byte list" where
  "pack_name n =
     (if n = ''.'' then [0]
      else concat (map (\<lambda>l. of_nat (length l) # map of_char l) (name_labels n)) @ [0])"

definition example_pack :: "Message \<Rightarrow> byte list option" where
  "example_pack m =
     (if list_all (\<lambda>q. canonical_name (Name q)) (Questions m)
      then Some (concat (map (\<lambda>q. pack_name (Name q)) (Questions m)))
      else None)"

definition friendly_net :: net_env where
  "friendly_net = \<lparr>dial = (\<lambda>address. address = ''8.8.8.8:53''), rand_id = 7,
     pack = example_pack, conn_write = (\<lambda>_. True), conn_read = Some [],
     unpack = (\<lambda>_. True), since = 1000\<rparr>"

subsection \<open>The head of \<open>main\<close>: flags, destination address, record type\<close>

text \<open>The flags as parsed; \<open>queries\<close> and \<open>concurrency\<close> are Go's \<open>int\<close>, 64 bits wide.\<close>

record Flags =
  domain :: string
  recordTypeStr :: string
  queries :: int64
  concurrency :: int64
  dnsServer :: string
  logFile :: string

text \<open>The values the run works with: the flags, the address rewritten, and the type code.\<close>

record RunConfig = Flags +
  recordType :: uint16

text \<open>\<open>strings.Contains(s, substr)\<close>: \<open>substr\<close> occurs in \<open>s\<close> at some position.\<close>

fun strings_Contains :: "string \<Rightarrow> string \<Rightarrow> bool" where
  "strings_Contains [] substr = (substr = [])"
| "strings_Contains (c # cs) substr = (prefix substr (c # cs) \<or> strings_Contains cs substr)"

text \<open>Lines 107 to 109.\<close>

definition withDefaultPort :: "string \<Rightarrow> string" where
  "withDefaultPort server = (if \<not> strings_Contains server '':'' then server @ '':53'' else server)"

text \<open>Lines 120 to 129, in the order of the source.\<close>

definition recordTypeTable :: "(string \<times> uint16) list" where
  "recordTypeTable =
     [(''A'', 1), (''NS'', 2), (''CNAME'', 5), (''SOA'', 6),
      (''PTR'', 12), (''MX'', 15), (''TXT'', 16), (''AAAA'', 28)]"

definition recordTypeMap :: "string \<Rightarrow> uint16 option" where
  "recordTypeMap = map_of recordTypeTable"

text \<open>
  Lines 102 to 135. \<open>os.Exit(1)\<close> and \<open>log.Fatalf\<close> end the process with status 1: the result
  is \<open>Inl 1\<close>, and nothing after it runs. \<open>log_opens\<close> says whether \<open>os.OpenFile\<close> succeeds on
  the log file.
\<close>

definition startup :: "bool \<Rightarrow> Flags \<Rightarrow> nat + RunConfig" where
  "startup log_opens fl =
     (if domain fl = '''' then Inl 1
      else let server = withDefaultPort (dnsServer fl) in
        if logFile fl \<noteq> '''' \<and> \<not> log_opens then Inl 1
        else case recordTypeMap (recordTypeStr fl) of
          None \<Rightarrow> Inl 1
        | Some rt \<Rightarrow> Inr (Flags.extend (fl\<lparr>dnsServer := server\<rparr>) (RunConfig.fields rt)))"

subsection \<open>The end of \<open>main\<close>: the statistics\<close>

text \<open>
  Go's \<open>/\<close> on \<open>int64\<close> truncates towards zero, wraps for \<open>MinInt64 / -1\<close> and panics when
  the divisor is zero.
\<close>

definition int64_div :: "int64 \<Rightarrow> int64 \<Rightarrow> panic + int64" where
  "int64_div a b = (if b = 0 then Inl DivideByZero else Inr (word_of_int (sint a sdiv sint b)))"

text \<open>
  \<open>float64\<close> values: the finite ones as the rationals they stand for (rounding is left out),
  the infinities and NaN. Division of floats never panics.
\<close>

datatype float64 = Finite rat | PosInf | NegInf | NaN

definition float_div :: "rat \<Rightarrow> rat \<Rightarrow> float64" where
  "float_div a b =
     (if b = 0 then (if a = 0 then NaN else if 0 < a then PosInf else NegInf)
      else Finite (a / b))"

fun times100 :: "float64 \<Rightarrow> float64" where
  "times100 (Finite a) = Finite (a * 100)"
| "times100 x = x"

fun from100 :: "float64 \<Rightarrow> float64" where
  "from100 (Finite a) = Finite (100 - a)"
| "from100 PosInf = NegInf"
| "from100 NegInf = PosInf"
| "from100 NaN = NaN"

definition Seconds :: "int64 \<Rightarrow> rat" where
  "Seconds d = of_int (sint d) / 1000000000"

record RunStatistics =
  totalQueries :: int64
  successfulQueries :: int64
  successRate :: float64
  failedQueries :: int64
  failedRate :: float64
  totalSeconds :: rat
  averageSeconds :: rat
  queriesPerSecond :: float64

text \<open>Lines 215 to 226; \<open>elapsed\<close> is what \<open>time.Since(start)\<close> measures.\<close>

definition computeStats :: "int64 \<Rightarrow> int64 \<Rightarrow> int64 \<Rightarrow> int64 \<Rightarrow> panic + RunStatistics" where
  "computeStats totalDuration finalQueryCount finalSuccessCount elapsed =
     (case int64_div totalDuration finalQueryCount of
        Inl p \<Rightarrow> Inl p
      | Inr avgDuration \<Rightarrow>
          let qps = float_div (of_int (sint finalQueryCount)) (Seconds elapsed);
              rate = times100 (float_div (of_int (sint finalSuccessCount))
                                         (of_int (sint finalQueryCount)))
          in Inr \<lparr>totalQueries = finalQueryCount,
                  successfulQueries = finalSuccessCount,
                  successRate = rate,
                  failedQueries = finalQueryCount - finalSuccessCount,
                  failedRate = from100 rate,
                  totalSeconds = Seconds elapsed,
                  averageSeconds = Seconds avgDuration,
                  queriesPerSecond = qps\<rparr>)"

subsection \<open>The goroutines\<close>

text \<open>
  A run is a sequence of steps, each the next statement of one goroutine (of two, where the
  send on the unbuffered channel meets its receive). The channels, the WaitGroup, the
  context and the atomic counters synchronise the goroutines, so between two such
  operations a goroutine is not observed; \<open>totalDuration\<close>, the one plain variable that is
  shared, is written by the aggregator alone and read by main after \<open>done\<close> is closed.
  Which goroutine moves next is open: every schedule is a run. One program counter per
  goroutine, one value per statement at which the goroutine can be between two steps.
\<close>

datatype main_pc =
    MSelect             \<comment> \<open>line 203: \<open>select\<close> on \<open>sigChan\<close> and \<open>done\<close>\<close>
  | MDrain              \<comment> \<open>line 211: \<open><-done\<close>\<close>
  | MLoadQueryCount     \<comment> \<open>line 213\<close>
  | MLoadSuccessCount   \<comment> \<open>line 214\<close>
  | MReporting          \<comment> \<open>lines 215 to 226\<close>
  | MTerminated         \<comment> \<open>main has returned: the process is gone\<close>

datatype producer_pc =
    PLoop               \<comment> \<open>line 171: the loop condition\<close>
  | PSelect             \<comment> \<open>line 172: \<open>select\<close> with \<open>default\<close>\<close>
  | PPush               \<comment> \<open>line 176: \<open>jobs <- 1\<close>\<close>
  | PCount              \<comment> \<open>lines 177 to 184\<close>
  | PClose              \<comment> \<open>line 187: \<open>close(jobs)\<close>\<close>
  | PExit

datatype worker_pc =
    WSelect             \<comment> \<open>line 80: \<open>select\<close> on \<open>ctx.Done()\<close> and \<open>jobs\<close>\<close>
  | WQuery              \<comment> \<open>line 87\<close>
  | WSend QueryResult   \<comment> \<open>line 88: \<open>results <- result\<close>\<close>
  | WExit               \<comment> \<open>returned, \<open>wg.Done()\<close> has run\<close>

datatype closer_pc =
    CWait               \<comment> \<open>line 160: \<open>wg.Wait()\<close>\<close>
  | CClose              \<comment> \<open>line 161: \<open>close(results)\<close>\<close>
  | CExit

datatype aggregator_pc =
    ARange              \<comment> \<open>line 194: \<open>range results\<close>\<close>
  | ACloseDone          \<comment> \<open>line 200: \<open>close(done)\<close>\<close>
  | AExit

text \<open>
  The shared variables of \<open>main\<close>, the program counters, and the history of the run,
  which no step reads: the work tokens handed from the producer to a worker, the results
  pushed onto the result channel, the results the aggregator took from it, and the calls
  the workers made on the network (those of one attempt kept together). \<open>jobs\<close> is
  unbuffered, so it holds nothing; \<open>results\<close> is the buffer of the result channel and
  \<open>results_cap\<close> its capacity. \<open>progress\<close> lists the counts the producer printed.
\<close>

record state =
  cancelled :: bool
  jobs_closed :: bool
  results :: "QueryResult list"
  results_cap :: nat
  results_closed :: bool
  done_closed :: bool
  wg :: nat
  queryCount :: int64
  successCount :: int64
  totalDuration :: int64
  finalQueryCount :: int64
  finalSuccessCount :: int64
  progress :: "int64 list"
  report :: "RunStatistics option"
  crashed :: "panic option"
  mainpc :: main_pc
  producer :: producer_pc
  workers :: "worker_pc list"
  closer :: closer_pc
  aggregator :: aggregator_pc
  tokens :: nat
  sent :: nat
  aggregated :: nat
  netlog :: "effect list"

text \<open>
  \<open>make(chan QueryResult, n)\<close>, as \<open>runtime.makechan\<close> does it on a 64-bit platform: a
  \<open>QueryResult\<close> takes 16 bytes, and the call panics with ``size out of range'' when \<open>n\<close> is
  negative or the buffer, with the 96 bytes of the channel's header, is beyond the largest
  allocation of \<open>2^48\<close> bytes.
\<close>

definition makechan_in_range :: "int \<Rightarrow> bool" where
  "makechan_in_range n = (0 \<le> n \<and> 16 * n \<le> 2 ^ 48 - 96)"

text \<open>The pool that is asked for can be built: \<open>make\<close> accepts the capacity, and the machine,
  with memory for a pool of \<open>mem\<close> workers and their results, holds it.\<close>

definition pool_fits :: "nat \<Rightarrow> RunConfig \<Rightarrow> bool" where
  "pool_fits mem cfg =
     (makechan_in_range (sint (concurrency cfg)) \<and> nat (sint (concurrency cfg)) \<le> mem)"

text \<open>
  Lines 147 to 201. \<open>make(chan QueryResult, *concurrency)\<close> at line 151 panics for a
  capacity out of range; and the runtime ends the process with ``out of memory'' when the
  machine cannot hold the pool, \<open>mem\<close> being the largest pool it holds. Either way the
  process is dead before a worker has moved: up to line 157 there is no producer and the
  context cannot be cancelled, so a worker that was started waits at its \<open>select\<close>. Both
  deaths are recorded at line 151, with no worker. Otherwise main makes the
  channels, runs the loop of lines 154 to 157, which adds one to the WaitGroup and then
  starts a worker, \<open>concurrency\<close> times, and starts the closer, the producer and the
  aggregator. The statements of main in between touch nothing the goroutines share, so
  whatever a goroutine does before main has started the others it can as well do after:
  the runs start where all goroutines are started, each at its first statement. (An
  interrupt before \<open>signal.Notify\<close> kills the process and is no run.)
\<close>

definition make_channels :: "RunConfig \<Rightarrow> state" where
  "make_channels cfg =
     \<lparr>cancelled = False, jobs_closed = False, results = [],
      results_cap = nat (sint (concurrency cfg)),
      results_closed = False, done_closed = False, wg = 0,
      queryCount = 0, successCount = 0, totalDuration = 0,
      finalQueryCount = 0, finalSuccessCount = 0, progress = [], report = None,
      crashed = None,
      mainpc = MSelect, producer = PLoop, workers = [],
      closer = CWait, aggregator = ARange,
      tokens = 0, sent = 0, aggregated = 0, netlog = []\<rparr>"

fun spawn :: "nat \<Rightarrow> state \<Rightarrow> state" where
  "spawn 0 s = s"
| "spawn (Suc n) s = spawn n (s\<lparr>wg := wg s + 1, workers := workers s @ [WSelect]\<rparr>)"

definition init :: "nat \<Rightarrow> RunConfig \<Rightarrow> state" where
  "init mem cfg =
     (if \<not> makechan_in_range (sint (concurrency cfg))
      then (make_channels cfg)\<lparr>crashed := Some MakeChanSize\<rparr>
      else if mem < nat (sint (concurrency cfg))
      then (make_channels cfg)\<lparr>crashed := Some OutOfMemory\<rparr>
      else spawn (nat (sint (concurrency cfg))) (make_channels cfg))"

text \<open>
  The events of a run. \<open>Signal\<close>: the interrupt arrives and main's \<open>select\<close> takes it.
  \<open>Handoff i\<close>: the producer's send on the unbuffered \<open>jobs\<close> meets the receive of worker
  \<open>i\<close>. \<open>Leave i\<close>: worker \<open>i\<close> returns, because \<open>ctx.Done()\<close> is closed or because \<open>jobs\<close>
  is. \<open>Query i env\<close>: worker \<open>i\<close> runs \<open>performDNSQuery\<close> on the network \<open>env\<close>.
  \<open>Report elapsed\<close>: main computes and prints the statistics, \<open>elapsed\<close> after the start.
  The others: the next statement of the goroutine named.
\<close>

datatype event =
    Signal
  | Main
  | Report int64
  | Producer
  | Handoff nat
  | Leave nat
  | Query nat net_env
  | Send nat
  | Closer
  | Aggregator

definition crash :: "panic \<Rightarrow> state \<Rightarrow> state" where
  "crash p s = s\<lparr>crashed := Some p\<rparr>"

text \<open>Lines 203 to 209, the \<open>sigChan\<close> case: \<open>cancel()\<close>.\<close>

definition signal_step :: "state \<Rightarrow> state option" where
  "signal_step s =
     (if mainpc s = MSelect then Some (s\<lparr>cancelled := True, mainpc := MDrain\<rparr>) else None)"

text \<open>Lines 203 to 214: a receive from \<open>done\<close> waits until it is closed.\<close>

definition main_step :: "state \<Rightarrow> state option" where
  "main_step s =
     (case mainpc s of
        MSelect \<Rightarrow> if done_closed s then Some (s\<lparr>mainpc := MDrain\<rparr>) else None
      | MDrain \<Rightarrow> if done_closed s then Some (s\<lparr>mainpc := MLoadQueryCount\<rparr>) else None
      | MLoadQueryCount \<Rightarrow>
          Some (s\<lparr>finalQueryCount := queryCount s, mainpc := MLoadSuccessCount\<rparr>)
      | MLoadSuccessCount \<Rightarrow>
          Some (s\<lparr>finalSuccessCount := successCount s, mainpc := MReporting\<rparr>)
      | MReporting \<Rightarrow> None
      | MTerminated \<Rightarrow> None)"

definition report_step :: "int64 \<Rightarrow> state \<Rightarrow> state option" where
  "report_step elapsed s =
     (if mainpc s = MReporting
      then (case computeStats (totalDuration s) (finalQueryCount s) (finalSuccessCount s) elapsed of
              Inl p \<Rightarrow> Some (crash p s)
            | Inr st \<Rightarrow> Some (s\<lparr>report := Some st, mainpc := MTerminated\<rparr>))
      else None)"

text \<open>
  Lines 171 to 187, without the send. The \<open>select\<close> has a \<open>default\<close>: it returns when the
  context is cancelled and goes on to the send otherwise. The return leaves \<open>jobs\<close> open.
  A progress line is printed at every tenth count and at the limit (\<open>%\<close> truncates, but
  a remainder is zero under truncation exactly when it is zero under \<open>mod\<close>).
\<close>

definition more_work :: "RunConfig \<Rightarrow> int64 \<Rightarrow> bool" where
  "more_work cfg count = (queries cfg = - 1 \<or> count <s queries cfg)"

definition progress_due :: "RunConfig \<Rightarrow> int64 \<Rightarrow> bool" where
  "progress_due cfg currentCount = (sint currentCount mod 10 = 0 \<or> currentCount = queries cfg)"

definition producer_step :: "RunConfig \<Rightarrow> state \<Rightarrow> state option" where
  "producer_step cfg s =
     (case producer s of
        PLoop \<Rightarrow>
          if more_work cfg (queryCount s)
          then Some (s\<lparr>producer := PSelect\<rparr>) else Some (s\<lparr>producer := PClose\<rparr>)
      | PSelect \<Rightarrow>
          if cancelled s then Some (s\<lparr>producer := PExit\<rparr>) else Some (s\<lparr>producer := PPush\<rparr>)
      | PPush \<Rightarrow> None
      | PCount \<Rightarrow>
          let currentCount = queryCount s + 1 in
          Some (s\<lparr>queryCount := currentCount,
                  progress := (if progress_due cfg currentCount
                               then progress s @ [currentCount] else progress s),
                  producer := PLoop\<rparr>)
      | PClose \<Rightarrow>
          if jobs_closed s then Some (crash CloseOfClosedChannel s)
          else Some (s\<lparr>jobs_closed := True, producer := PExit\<rparr>)
      | PExit \<Rightarrow> None)"

text \<open>Line 176 meets line 83: the token passes from the producer to worker \<open>i\<close>.\<close>

definition handoff_step :: "nat \<Rightarrow> state \<Rightarrow> state option" where
  "handoff_step i s =
     (if i < length (workers s) \<and> workers s ! i = WSelect \<and> producer s = PPush
      then Some (s\<lparr>producer := PCount, workers := (workers s)[i := WQuery],
                   tokens := tokens s + 1\<rparr>)
      else None)"

text \<open>Lines 81 to 86, and the deferred \<open>wg.Done()\<close> of line 78.\<close>

definition leave_step :: "nat \<Rightarrow> state \<Rightarrow> state option" where
  "leave_step i s =
     (if i < length (workers s) \<and> workers s ! i = WSelect \<and> (cancelled s \<or> jobs_closed s)
      then (if wg s = 0 then Some (crash NegativeWaitGroup s)
            else Some (s\<lparr>workers := (workers s)[i := WExit], wg := wg s - 1\<rparr>))
      else None)"

text \<open>
  Line 87. A panic in a goroutine ends the process. The calls of the attempt go to the
  network log, also those made before a panic.
\<close>

definition query_step :: "RunConfig \<Rightarrow> nat \<Rightarrow> net_env \<Rightarrow> state \<Rightarrow> state option" where
  "query_step cfg i env s =
     (if i < length (workers s) \<and> workers s ! i = WQuery
      then (let (calls, outcome) =
                  performDNSQuery env (dnsServer cfg) (domain cfg) (recordType cfg);
                s1 = s\<lparr>netlog := netlog s @ calls\<rparr>
            in case outcome of
                 Inl p \<Rightarrow> Some (crash p s1)
               | Inr r \<Rightarrow> Some (s1\<lparr>workers := (workers s)[i := WSend r]\<rparr>))
      else None)"

text \<open>
  Line 88: a send on a closed channel panics; a send on a full buffer waits. (Whenever a
  worker exists the capacity is at least 1, so the channel is buffered.)
\<close>

definition send_step :: "nat \<Rightarrow> state \<Rightarrow> state option" where
  "send_step i s =
     (if i < length (workers s)
      then (case workers s ! i of
              WSend r \<Rightarrow>
                if results_closed s then Some (crash SendOnClosedChannel s)
                else if length (results s) < results_cap s
                then Some (s\<lparr>results := results s @ [r], workers := (workers s)[i := WSelect],
                             sent := sent s + 1\<rparr>)
                else None
            | _ \<Rightarrow> None)
      else None)"

text \<open>Lines 159 to 162.\<close>

definition closer_step :: "state \<Rightarrow> state option" where
  "closer_step s =
     (case closer s of
        CWait \<Rightarrow> if wg s = 0 then Some (s\<lparr>closer := CClose\<rparr>) else None
      | CClose \<Rightarrow>
          if results_closed s then Some (crash CloseOfClosedChannel s)
          else Some (s\<lparr>results_closed := True, closer := CExit\<rparr>)
      | CExit \<Rightarrow> None)"

text \<open>
  Lines 193 to 201: \<open>range\<close> takes the buffered results also after the channel is closed,
  and ends when it is closed and empty.
\<close>

definition aggregator_step :: "state \<Rightarrow> state option" where
  "aggregator_step s =
     (case aggregator s of
        ARange \<Rightarrow>
          (case results s of
             r # rs \<Rightarrow>
               Some (s\<lparr>results := rs,
                       totalDuration := totalDuration s + Duration r,
                       successCount := (if Success r then successCount s + 1 else successCount s),
                       aggregated := aggregated s + 1\<rparr>)
           | [] \<Rightarrow> if results_closed s then Some (s\<lparr>aggregator := ACloseDone\<rparr>) else None)
      | ACloseDone \<Rightarrow>
          if done_closed s then Some (crash CloseOfClosedChannel s)
          else Some (s\<lparr>done_closed := True, aggregator := AExit\<rparr>)
      | AExit \<Rightarrow> None)"

text \<open>
  One step of the program. After a panic, and after main has returned, there is no process
  and no step. \<open>None\<close>: the event cannot happen in this state (the goroutine is blocked,
  or is elsewhere).
\<close>

definition alive :: "state \<Rightarrow> bool" where
  "alive s = (crashed s = None \<and> mainpc s \<noteq> MTerminated)"

definition step :: "RunConfig \<Rightarrow> event \<Rightarrow> state \<Rightarrow> state option" where
  "step cfg e s =
     (if \<not> alive s then None
      else case e of
        Signal \<Rightarrow> signal_step s
      | Main \<Rightarrow> main_step s
      | Report elapsed \<Rightarrow> report_step elapsed s
      | Producer \<Rightarrow> producer_step cfg s
      | Handoff i \<Rightarrow> handoff_step i s
      | Leave i \<Rightarrow> leave_step i s
      | Query i env \<Rightarrow> query_step cfg i env s
      | Send i \<Rightarrow> send_step i s
      | Closer \<Rightarrow> closer_step s
      | Aggregator \<Rightarrow> aggregator_step s)"

text \<open>A schedule is run from left to right; it fails where an event cannot happen.\<close>

fun run :: "RunConfig \<Rightarrow> event list \<Rightarrow> state \<Rightarrow> state option" where
  "run cfg [] s = Some s"
| "run cfg (e # es) s = (case step cfg e s of None \<Rightarrow> None | Some s' \<Rightarrow> run cfg es s')"

definition reachable :: "nat \<Rightarrow> RunConfig \<Rightarrow> state \<Rightarrow> bool" where
  "reachable mem cfg s = (\<exists>es. run cfg es (init mem cfg) = Some s)"

subsection \<open>The whole program\<close>

text \<open>
  The head of \<open>main\<close>, then a run of the goroutines under a schedule, on a machine with
  room for \<open>mem\<close> goroutines. A start-up that exits never builds the channels: no goroutine
  exists and no query is made. The configuration that start-up returns is the one every
  goroutine runs with: the address a worker dials is its \<open>dnsServer\<close>.
\<close>

definition program :: "nat \<Rightarrow> bool \<Rightarrow> Flags \<Rightarrow> event list \<Rightarrow> nat + state option" where
  "program mem log_opens fl schedule =
     (case startup log_opens fl of
        Inl status \<Rightarrow> Inl status
      | Inr cfg \<Rightarrow> Inr (run cfg schedule (init mem cfg)))"

subsection \<open>The network calls of a run\<close>

text \<open>The addresses dialled and the datagrams written, in the order of the calls.\<close>

fun dials :: "effect list \<Rightarrow> string list" where
  "dials [] = []"
| "dials (NetDial address # calls) = address # dials calls"
| "dials (_ # calls) = dials calls"

fun datagrams :: "effect list \<Rightarrow> byte list list" where
  "datagrams [] = []"
| "datagrams (NetWrite packed # calls) = packed # datagrams calls"
| "datagrams (_ # calls) = datagrams calls"

subsection \<open>The specification's reading of the destination address\<close>

text \<open>
  Following the specification's words, ``if no port is present'': an address carries a
  port when it has the form \<open>host:port\<close> that \<open>net.Dial\<close> accepts. The port follows the
  last colon, and the host before it has no colon of its own unless it stands in square
  brackets, as an IPv6 literal must.
\<close>

definition spec_port_present :: "string \<Rightarrow> bool" where
  "spec_port_present address =
     (CHR '':'' \<in> set address \<and>
      (let host = rev (tl (dropWhile (\<lambda>c. c \<noteq> CHR '':'') (rev address)))
       in CHR '':'' \<notin> set host \<or>
          (host \<noteq> [] \<and> hd host = CHR ''['' \<and> last host = CHR '']'')))"

definition spec_withDefaultPort :: "string \<Rightarrow> string" where
  "spec_withDefaultPort address =
     (if \<not> spec_port_present address then address @ '':53'' else address)"

subsection \<open>Example inputs\<close>

text \<open>A machine with room for four goroutines.\<close>

definition example_mem :: nat where
  "example_mem = 4"

definition example_flags :: "string \<Rightarrow> Flags" where
  "example_flags t = \<lparr>domain = ''example.com'', recordTypeStr = t, queries = 2,
     concurrency = 1, dnsServer = ''8.8.8.8'', logFile = []\<rparr>"

text \<open>\<open>-dns ::1\<close>, an IPv6 address without a port, one worker, one query.\<close>

definition ipv6_flags :: Flags where
  "ipv6_flags = \<lparr>domain = ''example.com'', recordTypeStr = ''A'', queries = 1,
     concurrency = 1, dnsServer = ''::1'', logFile = []\<rparr>"

text \<open>\<open>-domain example.com -concurrency n -queries l -dns 8.8.8.8:53\<close>, after start-up.\<close>

definition example_cfg :: "int64 \<Rightarrow> int64 \<Rightarrow> RunConfig" where
  "example_cfg n l = \<lparr>domain = ''example.com'', recordTypeStr = ''A'', queries = l,
     concurrency = n, dnsServer = ''8.8.8.8:53'', logFile = [], recordType = 1\<rparr>"

text \<open>A domain of 255 bytes, one worker, one query.\<close>

definition long_domain_cfg :: RunConfig where
  "long_domain_cfg = \<lparr>domain = replicate 255 CHR ''a'', recordTypeStr = ''A'', queries = 1,
     concurrency = 1, dnsServer = ''8.8.8.8:53'', logFile = [], recordType = 1\<rparr>"

text \<open>One worker, two queries, no interrupt: from the first token to the report.\<close>

definition complete_schedule :: "event list" where
  "complete_schedule =
     [Producer, Producer, Handoff 0, Producer, Query 0 friendly_net, Send 0, Aggregator,
      Producer, Producer, Handoff 0, Producer, Query 0 friendly_net, Send 0, Aggregator,
      Producer, Producer, Leave 0, Closer, Closer, Aggregator, Aggregator,
      Main, Main, Main, Main, Report 5000000000]"

text \<open>
  One worker, no limit. The producer counts its first token, hands over the second and is
  not scheduled again before line 177; both queries succeed and are aggregated; the
  interrupt arrives; the worker leaves, the channels close and main reports.
\<close>

definition race_schedule :: "event list" where
  "race_schedule =
     [Producer, Producer, Handoff 0, Producer, Producer, Producer,
      Query 0 friendly_net, Send 0, Handoff 0, Query 0 friendly_net, Aggregator, Send 0,
      Aggregator, Signal, Leave 0, Closer, Closer, Aggregator, Aggregator,
      Main, Main, Main, Report 5000000000]"

text \<open>
  One worker, no limit. The producer is at its second send while the worker is busy; the
  interrupt arrives; the worker finishes its query and, at its \<open>select\<close>, takes
  \<open>ctx.Done()\<close>.
\<close>

definition blocked_schedule :: "event list" where
  "blocked_schedule =
     [Producer, Producer, Handoff 0, Producer, Producer, Producer,
      Signal, Query 0 friendly_net, Send 0, Leave 0]"

text \<open>After it, the rest of the program up to the return of main.\<close>

definition drain_schedule :: "event list" where
  "drain_schedule =
     [Closer, Closer, Aggregator, Aggregator, Aggregator, Main, Main, Main, Report 5000000000]"

text \<open>\<open>-queries 0\<close> with one worker: the producer closes \<open>jobs\<close> at once.\<close>

definition zero_limit_schedule :: "event list" where
  "zero_limit_schedule =
     [Producer, Producer, Leave 0, Closer, Closer, Aggregator, Aggregator,
      Main, Main, Main, Main, Report 5000000000]"

text \<open>\<open>-concurrency 0\<close>: the closer, the aggregator and main, up to the report.\<close>

definition idle_schedule :: "event list" where
  "idle_schedule = [Closer, Closer, Aggregator, Aggregator, Main, Main, Main, Main]"

subsection \<open>Invariants of the runs\<close>

text \<open>The workers that have not returned, and the workers that hold a token.\<close>

definition running :: "worker_pc list \<Rightarrow> nat" where
  "running ws = length (filter (\<lambda>w. w \<noteq> WExit) ws)"

fun holds_token :: "worker_pc \<Rightarrow> bool" where
  "holds_token WQuery = True"
| "holds_token (WSend r) = True"
| "holds_token WSelect = False"
| "holds_token WExit = False"

definition busy :: "worker_pc list \<Rightarrow> nat" where
  "busy ws = length (filter holds_token ws)"

text \<open>
  When the pool could be built, it has the size of the flag, and so has the buffer of the
  result channel; when it could not, the process died in \<open>main\<close> and nothing has moved.
\<close>

definition shape_inv :: "nat \<Rightarrow> RunConfig \<Rightarrow> state \<Rightarrow> bool" where
  "shape_inv mem cfg s =
     (if pool_fits mem cfg
      then length (workers s) = nat (sint (concurrency cfg)) \<and>
           results_cap s = nat (sint (concurrency cfg))
      else s = init mem cfg)"

text \<open>
  The WaitGroup counts the workers that have not returned; the closer is past
  \<open>wg.Wait()\<close> only when it is zero; the result channel is closed by the closer alone.
\<close>

definition barrier_inv :: "state \<Rightarrow> bool" where
  "barrier_inv s =
     (wg s = running (workers s) \<and> (closer s \<noteq> CWait \<longrightarrow> wg s = 0) \<and>
      (results_closed s \<longleftrightarrow> closer s = CExit))"

text \<open>Every token is a result on the channel or in a worker's hands; every result sent is
  aggregated or in the buffer.\<close>

definition flow_inv :: "state \<Rightarrow> bool" where
  "flow_inv s =
     (tokens s = sent s + busy (workers s) \<and> sent s = aggregated s + length (results s))"

text \<open>The success counter, read as an unsigned number, is within the results aggregated.\<close>

definition success_inv :: "state \<Rightarrow> bool" where
  "success_inv s = (unat (successCount s) \<le> aggregated s)"

text \<open>Who has closed what, and what main has waited for.\<close>

definition channel_inv :: "state \<Rightarrow> bool" where
  "channel_inv s =
     ((jobs_closed s \<longrightarrow> producer s = PExit) \<and>
      (aggregator s \<noteq> ARange \<longrightarrow> results_closed s \<and> results s = []) \<and>
      (done_closed s \<longleftrightarrow> aggregator s = AExit) \<and>
      (mainpc s \<noteq> MSelect \<and> (mainpc s \<noteq> MDrain \<or> \<not> cancelled s) \<longrightarrow> done_closed s))"

text \<open>Without a cancellation, a worker or the producer has returned only after \<open>jobs\<close>
  was closed.\<close>

definition quiet_inv :: "state \<Rightarrow> bool" where
  "quiet_inv s =
     (\<not> cancelled s \<longrightarrow>
        (\<forall>i < length (workers s). workers s ! i = WExit \<longrightarrow> jobs_closed s) \<and>
        (producer s = PExit \<longrightarrow> jobs_closed s))"

text \<open>
  With a limit, \<open>queryCount\<close> is the number of tokens handed over, less the one the
  producer has not counted yet; it stays within the limit and has reached it when the
  producer closes \<open>jobs\<close>.
\<close>

definition producer_inv :: "RunConfig \<Rightarrow> state \<Rightarrow> bool" where
  "producer_inv cfg s =
     (0 \<le> sint (queries cfg) \<longrightarrow>
        int (tokens s) = sint (queryCount s) + (if producer s = PCount then 1 else 0) \<and>
        0 \<le> sint (queryCount s) \<and> sint (queryCount s) \<le> sint (queries cfg) \<and>
        (producer s = PSelect \<or> producer s = PPush \<or> producer s = PCount \<longrightarrow>
           sint (queryCount s) < sint (queries cfg)) \<and>
        (producer s = PClose \<or> jobs_closed s \<longrightarrow> queryCount s = queries cfg))"

definition inv :: "nat \<Rightarrow> RunConfig \<Rightarrow> state \<Rightarrow> bool" where
  "inv mem cfg s =
     (shape_inv mem cfg s \<and> barrier_inv s \<and> flow_inv s \<and> channel_inv s \<and> quiet_inv s \<and>
      producer_inv cfg s)"


text \<open>The panics that can happen, and where.\<close>

definition panic_inv :: "nat \<Rightarrow> RunConfig \<Rightarrow> state \<Rightarrow> bool" where
  "panic_inv mem cfg s =
     (case crashed s of
        None \<Rightarrow> True
      | Some p \<Rightarrow>
          (p = CreatingName \<and> nameLen \<le> length (domain cfg)) \<or>
          (p = DivideByZero \<and> mainpc s = MReporting \<and> finalQueryCount s = 0) \<or>
          (p = MakeChanSize \<and> \<not> makechan_in_range (sint (concurrency cfg))) \<or>
          (p = OutOfMemory \<and> mem < nat (sint (concurrency cfg))))"

text \<open>The workers that hold the result of an attempt they have not sent yet.\<close>

fun has_result :: "worker_pc \<Rightarrow> bool" where
  "has_result (WSend r) = True"
| "has_result WSelect = False"
| "has_result WQuery = False"
| "has_result WExit = False"

definition sending :: "worker_pc list \<Rightarrow> nat" where
  "sending ws = length (filter has_result ws)"

text \<open>
  Every address dialled is the one of the configuration; every datagram written is the
  packed form of the message \<open>performDNSQuery\<close> builds for the configured domain and type;
  every result sent or about to be sent had its dial.
\<close>

definition netlog_inv :: "RunConfig \<Rightarrow> state \<Rightarrow> bool" where
  "netlog_inv cfg s =
     (list_all (\<lambda>address. address = dnsServer cfg) (dials (netlog s)) \<and>
      list_all (\<lambda>packed. \<exists>(env::net_env) m. buildQuery (rand_id env) (domain cfg) (recordType cfg) = Inr m \<and>
                                     pack env m = Some packed)
        (datagrams (netlog s)) \<and>
      sent s + sending (workers s) \<le> length (dials (netlog s)))"

text \<open>A pool of no workers never moves a token.\<close>

definition idle_inv :: "state \<Rightarrow> bool" where
  "idle_inv s =
     (workers s = [] \<and> tokens s = 0 \<and> sent s = 0 \<and> aggregated s = 0 \<and> results s = [] \<and>
      queryCount s = 0 \<and> successCount s = 0 \<and> finalQueryCount s = 0 \<and> wg s = 0 \<and>
      producer s \<noteq> PCount)"

subsection \<open>A bound on the steps left\<close>

text \<open>
  The steps a goroutine has left from each statement, not counting the work per token. A
  token costs six steps (four of the producer's loop, the query and the send of a worker),
  a result one step of the aggregator; a panic is a step.
\<close>

fun main_left :: "main_pc \<Rightarrow> nat" where
  "main_left MSelect = 5"
| "main_left MDrain = 4"
| "main_left MLoadQueryCount = 3"
| "main_left MLoadSuccessCount = 2"
| "main_left MReporting = 1"
| "main_left MTerminated = 0"

fun producer_left :: "producer_pc \<Rightarrow> nat" where
  "producer_left PLoop = 2"
| "producer_left PSelect = 1"
| "producer_left PPush = 0"
| "producer_left PCount = 3"
| "producer_left PClose = 1"
| "producer_left PExit = 0"

fun worker_left :: "worker_pc \<Rightarrow> nat" where
  "worker_left WSelect = 1"
| "worker_left WQuery = 3"
| "worker_left (WSend r) = 2"
| "worker_left WExit = 0"

fun closer_left :: "closer_pc \<Rightarrow> nat" where
  "closer_left CWait = 2"
| "closer_left CClose = 1"
| "closer_left CExit = 0"

fun aggregator_left :: "aggregator_pc \<Rightarrow> nat" where
  "aggregator_left ARange = 2"
| "aggregator_left ACloseDone = 1"
| "aggregator_left AExit = 0"

definition workers_left :: "worker_pc list \<Rightarrow> nat" where
  "workers_left ws = sum_list (map worker_left ws)"

definition potential :: "nat \<Rightarrow> state \<Rightarrow> nat" where
  "potential L s =
     main_left (mainpc s) + producer_left (producer s) + 6 * (L - tokens s) +
     workers_left (workers s) + closer_left (closer s) + aggregator_left (aggregator s) +
     (L - aggregated s) + (if crashed s = None then 1 else 0)"

section \<open>Properties of the model\<close>

subsection \<open>Running a schedule\<close>

text \<open>The loop of lines 154 to 157 in closed form, and the state it leaves.\<close>

lemma spawn_eq: "spawn n s = s\<lparr>wg := wg s + n, workers := workers s @ replicate n WSelect\<rparr>"
  by (induction n arbitrary: s) simp_all

lemma init_unfold:
  "init mem cfg =
     (let n = nat (sint (concurrency cfg)); fits = pool_fits mem cfg in
      \<lparr>cancelled = False, jobs_closed = False, results = [], results_cap = n,
       results_closed = False, done_closed = False, wg = (if fits then n else 0),
       queryCount = 0, successCount = 0, totalDuration = 0,
       finalQueryCount = 0, finalSuccessCount = 0, progress = [], report = None,
       crashed = (if \<not> makechan_in_range (sint (concurrency cfg)) then Some MakeChanSize
                  else if mem < n then Some OutOfMemory else None),
       mainpc = MSelect, producer = PLoop,
       workers = (if fits then replicate n WSelect else []),
       closer = CWait, aggregator = ARange,
       tokens = 0, sent = 0, aggregated = 0, netlog = []\<rparr>)"
  by (simp add: init_def make_channels_def spawn_eq Let_def pool_fits_def)

text \<open>The process lives after line 157 exactly when the pool could be built.\<close>

lemma init_dead: "\<not> pool_fits mem cfg \<Longrightarrow> crashed (init mem cfg) \<noteq> None"
  by (auto simp: init_unfold Let_def pool_fits_def)


text \<open>The equations that evaluate a run on a concrete schedule.\<close>

lemmas run_eval = step_def alive_def crash_def signal_step_def main_step_def report_step_def
  producer_step_def handoff_step_def leave_step_def query_step_def send_step_def
  closer_step_def aggregator_step_def init_unfold Let_def more_work_def progress_due_def
  performDNSQuery_def buildQuery_def MustNewName_def NewName_def nameLen_def friendly_net_def
  succeeded_def failed_def read_buffer_def computeStats_def int64_div_def
  signed_divide_int_def example_cfg_def float_div_def Seconds_def ClassINET_def
  example_mem_def pool_fits_def makechan_in_range_def example_pack_def canonical_name_def
  name_labels_def pack_name_def
  word_sless_alt

lemma run_append:
  "run cfg (es @ fs) s = (case run cfg es s of None \<Rightarrow> None | Some t \<Rightarrow> run cfg fs t)"
  by (induction es arbitrary: s) (simp_all split: option.splits)

lemma run_invariant:
  assumes "run cfg es s = Some s'" "P s" "\<And>e t t'. step cfg e t = Some t' \<Longrightarrow> P t \<Longrightarrow> P t'"
  shows "P s'"
  using assms(1,2)
proof (induction es arbitrary: s)
  case Nil
  then show ?case by simp
next
  case (Cons e es)
  from Cons.prems(1) obtain t where t: "step cfg e s = Some t" and r: "run cfg es t = Some s'"
    by (auto split: option.splits)
  from assms(3) [OF t Cons.prems(2)] have "P t" .
  with r show ?case by (rule Cons.IH)
qed

subsection \<open>The steps, case by case\<close>

lemma step_alive: "step cfg e s = Some s' \<Longrightarrow> alive s"
  by (simp add: step_def split: if_splits)

lemma signal_step_cases:
  assumes "signal_step s = Some s'"
  obtains (signal) "mainpc s = MSelect" "s' = s\<lparr>cancelled := True, mainpc := MDrain\<rparr>"
proof -
  from assms have pc: "mainpc s = MSelect" by (simp add: signal_step_def split: if_splits)
  with assms have "s' = s\<lparr>cancelled := True, mainpc := MDrain\<rparr>" by (simp add: signal_step_def)
  with pc show ?thesis by (rule signal)
qed

lemma main_step_cases:
  assumes "main_step s = Some s'"
  obtains
    (select_done) "mainpc s = MSelect" "done_closed s" "s' = s\<lparr>mainpc := MDrain\<rparr>"
  | (drain) "mainpc s = MDrain" "done_closed s" "s' = s\<lparr>mainpc := MLoadQueryCount\<rparr>"
  | (load_query_count) "mainpc s = MLoadQueryCount"
      "s' = s\<lparr>finalQueryCount := queryCount s, mainpc := MLoadSuccessCount\<rparr>"
  | (load_success_count) "mainpc s = MLoadSuccessCount"
      "s' = s\<lparr>finalSuccessCount := successCount s, mainpc := MReporting\<rparr>"
proof (cases "mainpc s")
  case MSelect
  with assms have "done_closed s \<and> s' = s\<lparr>mainpc := MDrain\<rparr>"
    by (simp add: main_step_def split: if_splits)
  with MSelect show ?thesis using select_done by blast
next
  case MDrain
  with assms have "done_closed s \<and> s' = s\<lparr>mainpc := MLoadQueryCount\<rparr>"
    by (simp add: main_step_def split: if_splits)
  with MDrain show ?thesis using drain by blast
next
  case MLoadQueryCount
  with assms have "s' = s\<lparr>finalQueryCount := queryCount s, mainpc := MLoadSuccessCount\<rparr>"
    by (simp add: main_step_def)
  with MLoadQueryCount show ?thesis using load_query_count by blast
next
  case MLoadSuccessCount
  with assms have "s' = s\<lparr>finalSuccessCount := successCount s, mainpc := MReporting\<rparr>"
    by (simp add: main_step_def)
  with MLoadSuccessCount show ?thesis using load_success_count by blast
next
  case MReporting
  with assms show ?thesis by (simp add: main_step_def)
next
  case MTerminated
  with assms show ?thesis by (simp add: main_step_def)
qed

lemma report_step_cases:
  assumes "report_step elapsed s = Some s'"
  obtains
    (report_panic) p where "mainpc s = MReporting"
      "computeStats (totalDuration s) (finalQueryCount s) (finalSuccessCount s) elapsed = Inl p"
      "s' = crash p s"
  | (report_done) st where "mainpc s = MReporting"
      "computeStats (totalDuration s) (finalQueryCount s) (finalSuccessCount s) elapsed = Inr st"
      "s' = s\<lparr>report := Some st, mainpc := MTerminated\<rparr>"
proof -
  from assms have pc: "mainpc s = MReporting"
    by (simp add: report_step_def split: if_splits)
  show ?thesis
  proof (cases "computeStats (totalDuration s) (finalQueryCount s) (finalSuccessCount s) elapsed")
    case (Inl p)
    with assms pc have "s' = crash p s" by (simp add: report_step_def)
    with pc Inl show ?thesis by (rule report_panic)
  next
    case (Inr st)
    with assms pc have "s' = s\<lparr>report := Some st, mainpc := MTerminated\<rparr>"
      by (simp add: report_step_def)
    with pc Inr show ?thesis by (rule report_done)
  qed
qed

lemma producer_step_cases:
  assumes "producer_step cfg s = Some s'"
  obtains
    (loop_more) "producer s = PLoop" "more_work cfg (queryCount s)" "s' = s\<lparr>producer := PSelect\<rparr>"
  | (loop_end) "producer s = PLoop" "\<not> more_work cfg (queryCount s)" "s' = s\<lparr>producer := PClose\<rparr>"
  | (select_cancelled) "producer s = PSelect" "cancelled s" "s' = s\<lparr>producer := PExit\<rparr>"
  | (select_default) "producer s = PSelect" "\<not> cancelled s" "s' = s\<lparr>producer := PPush\<rparr>"
  | (count) "producer s = PCount"
      "s' = s\<lparr>queryCount := queryCount s + 1,
               progress := (if progress_due cfg (queryCount s + 1)
                            then progress s @ [queryCount s + 1] else progress s),
               producer := PLoop\<rparr>"
  | (close_jobs_panic) "producer s = PClose" "jobs_closed s" "s' = crash CloseOfClosedChannel s"
  | (close_jobs) "producer s = PClose" "\<not> jobs_closed s"
      "s' = s\<lparr>jobs_closed := True, producer := PExit\<rparr>"
proof (cases "producer s")
  case PLoop
  show ?thesis
  proof (cases "more_work cfg (queryCount s)")
    case True
    with assms PLoop have "s' = s\<lparr>producer := PSelect\<rparr>" by (simp add: producer_step_def)
    with PLoop True show ?thesis by (rule loop_more)
  next
    case False
    with assms PLoop have "s' = s\<lparr>producer := PClose\<rparr>" by (simp add: producer_step_def)
    with PLoop False show ?thesis by (rule loop_end)
  qed
next
  case PSelect
  show ?thesis
  proof (cases "cancelled s")
    case True
    with assms PSelect have "s' = s\<lparr>producer := PExit\<rparr>" by (simp add: producer_step_def)
    with PSelect True show ?thesis by (rule select_cancelled)
  next
    case False
    with assms PSelect have "s' = s\<lparr>producer := PPush\<rparr>" by (simp add: producer_step_def)
    with PSelect False show ?thesis by (rule select_default)
  qed
next
  case PPush
  with assms show ?thesis by (simp add: producer_step_def)
next
  case PCount
  with assms have
    "s' = s\<lparr>queryCount := queryCount s + 1,
             progress := (if progress_due cfg (queryCount s + 1)
                          then progress s @ [queryCount s + 1] else progress s),
             producer := PLoop\<rparr>"
    by (simp add: producer_step_def Let_def)
  with PCount show ?thesis by (rule count)
next
  case PClose
  show ?thesis
  proof (cases "jobs_closed s")
    case True
    with assms PClose have "s' = crash CloseOfClosedChannel s" by (simp add: producer_step_def)
    with PClose True show ?thesis by (rule close_jobs_panic)
  next
    case False
    with assms PClose have "s' = s\<lparr>jobs_closed := True, producer := PExit\<rparr>"
      by (simp add: producer_step_def)
    with PClose False show ?thesis by (rule close_jobs)
  qed
next
  case PExit
  with assms show ?thesis by (simp add: producer_step_def)
qed

lemma handoff_step_cases:
  assumes "handoff_step i s = Some s'"
  obtains (handoff) "i < length (workers s)" "workers s ! i = WSelect" "producer s = PPush"
    "s' = s\<lparr>producer := PCount, workers := (workers s)[i := WQuery], tokens := tokens s + 1\<rparr>"
proof -
  from assms have g: "i < length (workers s) \<and> workers s ! i = WSelect \<and> producer s = PPush"
    by (simp add: handoff_step_def split: if_splits)
  with assms have
    "s' = s\<lparr>producer := PCount, workers := (workers s)[i := WQuery], tokens := tokens s + 1\<rparr>"
    by (simp add: handoff_step_def)
  with g show ?thesis using handoff by blast
qed

lemma leave_step_cases:
  assumes "leave_step i s = Some s'"
  obtains
    (leave_panic) "i < length (workers s)" "workers s ! i = WSelect" "cancelled s \<or> jobs_closed s"
      "wg s = 0" "s' = crash NegativeWaitGroup s"
  | (leave) "i < length (workers s)" "workers s ! i = WSelect" "cancelled s \<or> jobs_closed s"
      "wg s \<noteq> 0" "s' = s\<lparr>workers := (workers s)[i := WExit], wg := wg s - 1\<rparr>"
proof -
  from assms have
    g: "i < length (workers s) \<and> workers s ! i = WSelect \<and> (cancelled s \<or> jobs_closed s)"
    by (simp add: leave_step_def split: if_splits)
  show ?thesis
  proof (cases "wg s = 0")
    case True
    with assms g have "s' = crash NegativeWaitGroup s" by (simp add: leave_step_def)
    with g True show ?thesis using leave_panic by blast
  next
    case False
    with assms g have "s' = s\<lparr>workers := (workers s)[i := WExit], wg := wg s - 1\<rparr>"
      by (simp add: leave_step_def)
    with g False show ?thesis using leave by blast
  qed
qed

lemma query_step_cases:
  assumes "query_step cfg i env s = Some s'"
  obtains
    (query_panic) calls p where "i < length (workers s)" "workers s ! i = WQuery"
      "performDNSQuery env (dnsServer cfg) (domain cfg) (recordType cfg) = (calls, Inl p)"
      "s' = crash p (s\<lparr>netlog := netlog s @ calls\<rparr>)"
  | (query) calls r where "i < length (workers s)" "workers s ! i = WQuery"
      "performDNSQuery env (dnsServer cfg) (domain cfg) (recordType cfg) = (calls, Inr r)"
      "s' = s\<lparr>netlog := netlog s @ calls, workers := (workers s)[i := WSend r]\<rparr>"
proof -
  from assms have g: "i < length (workers s) \<and> workers s ! i = WQuery"
    by (simp add: query_step_def split: if_splits)
  obtain calls outcome where
    q: "performDNSQuery env (dnsServer cfg) (domain cfg) (recordType cfg) = (calls, outcome)"
    by (cases "performDNSQuery env (dnsServer cfg) (domain cfg) (recordType cfg)")
  show ?thesis
  proof (cases outcome)
    case (Inl p)
    with assms g q have "s' = crash p (s\<lparr>netlog := netlog s @ calls\<rparr>)"
      by (simp add: query_step_def)
    with g q Inl show ?thesis using query_panic by blast
  next
    case (Inr r)
    with assms g q have
      "s' = s\<lparr>netlog := netlog s @ calls, workers := (workers s)[i := WSend r]\<rparr>"
      by (simp add: query_step_def)
    with g q Inr show ?thesis using query by blast
  qed
qed

lemma send_step_cases:
  assumes "send_step i s = Some s'"
  obtains
    (send_panic) r where "i < length (workers s)" "workers s ! i = WSend r" "results_closed s"
      "s' = crash SendOnClosedChannel s"
  | (send) r where "i < length (workers s)" "workers s ! i = WSend r" "\<not> results_closed s"
      "length (results s) < results_cap s"
      "s' = s\<lparr>results := results s @ [r], workers := (workers s)[i := WSelect],
               sent := sent s + 1\<rparr>"
proof -
  from assms have len: "i < length (workers s)"
    by (simp add: send_step_def split: if_splits)
  show ?thesis
  proof (cases "workers s ! i")
    case (WSend r)
    show ?thesis
    proof (cases "results_closed s")
      case True
      with assms len WSend have "s' = crash SendOnClosedChannel s" by (simp add: send_step_def)
      with len WSend True show ?thesis by (rule send_panic)
    next
      case False
      with assms len WSend have "length (results s) < results_cap s"
        by (simp add: send_step_def split: if_splits)
      moreover from this assms len WSend False have
        "s' = s\<lparr>results := results s @ [r], workers := (workers s)[i := WSelect],
                 sent := sent s + 1\<rparr>"
        by (simp add: send_step_def)
      ultimately show ?thesis using len WSend False send by blast
    qed
  qed (use assms len in \<open>simp_all add: send_step_def\<close>)
qed

lemma closer_step_cases:
  assumes "closer_step s = Some s'"
  obtains
    (wait_over) "closer s = CWait" "wg s = 0" "s' = s\<lparr>closer := CClose\<rparr>"
  | (close_results_panic) "closer s = CClose" "results_closed s" "s' = crash CloseOfClosedChannel s"
  | (close_results) "closer s = CClose" "\<not> results_closed s"
      "s' = s\<lparr>results_closed := True, closer := CExit\<rparr>"
proof (cases "closer s")
  case CWait
  with assms have "wg s = 0 \<and> s' = s\<lparr>closer := CClose\<rparr>"
    by (simp add: closer_step_def split: if_splits)
  with CWait show ?thesis using wait_over by blast
next
  case CClose
  show ?thesis
  proof (cases "results_closed s")
    case True
    with assms CClose have "s' = crash CloseOfClosedChannel s" by (simp add: closer_step_def)
    with CClose True show ?thesis by (rule close_results_panic)
  next
    case False
    with assms CClose have "s' = s\<lparr>results_closed := True, closer := CExit\<rparr>"
      by (simp add: closer_step_def)
    with CClose False show ?thesis by (rule close_results)
  qed
next
  case CExit
  with assms show ?thesis by (simp add: closer_step_def)
qed

lemma aggregator_step_cases:
  assumes "aggregator_step s = Some s'"
  obtains
    (take) r rs where "aggregator s = ARange" "results s = r # rs"
      "s' = s\<lparr>results := rs, totalDuration := totalDuration s + Duration r,
               successCount := (if Success r then successCount s + 1 else successCount s),
               aggregated := aggregated s + 1\<rparr>"
  | (range_over) "aggregator s = ARange" "results s = []" "results_closed s"
      "s' = s\<lparr>aggregator := ACloseDone\<rparr>"
  | (close_done_panic) "aggregator s = ACloseDone" "done_closed s" "s' = crash CloseOfClosedChannel s"
  | (close_done) "aggregator s = ACloseDone" "\<not> done_closed s"
      "s' = s\<lparr>done_closed := True, aggregator := AExit\<rparr>"
proof (cases "aggregator s")
  case ARange
  show ?thesis
  proof (cases "results s")
    case Nil
    with assms ARange have "results_closed s \<and> s' = s\<lparr>aggregator := ACloseDone\<rparr>"
      by (simp add: aggregator_step_def split: if_splits)
    with ARange Nil show ?thesis using range_over by blast
  next
    case (Cons r rs)
    with assms ARange have
      "s' = s\<lparr>results := rs, totalDuration := totalDuration s + Duration r,
               successCount := (if Success r then successCount s + 1 else successCount s),
               aggregated := aggregated s + 1\<rparr>"
      by (simp add: aggregator_step_def)
    with ARange Cons show ?thesis by (rule take)
  qed
next
  case ACloseDone
  show ?thesis
  proof (cases "done_closed s")
    case True
    with assms ACloseDone have "s' = crash CloseOfClosedChannel s"
      by (simp add: aggregator_step_def)
    with ACloseDone True show ?thesis by (rule close_done_panic)
  next
    case False
    with assms ACloseDone have "s' = s\<lparr>done_closed := True, aggregator := AExit\<rparr>"
      by (simp add: aggregator_step_def)
    with ACloseDone False show ?thesis by (rule close_done)
  qed
next
  case AExit
  with assms show ?thesis by (simp add: aggregator_step_def)
qed

text \<open>Every step of the program is one of twenty-eight transitions.\<close>

lemma step_cases [consumes 1, case_names signal select_done drain load_query_count
    load_success_count report_panic report_done loop_more loop_end select_cancelled
    select_default count close_jobs_panic close_jobs handoff leave_panic leave query_panic
    query send_panic send wait_over close_results_panic close_results take range_over
    close_done_panic close_done]:
  assumes "step cfg e s = Some s'"
  obtains
    "e = Signal" "mainpc s = MSelect" "s' = s\<lparr>cancelled := True, mainpc := MDrain\<rparr>"
  | "e = Main" "mainpc s = MSelect" "done_closed s" "s' = s\<lparr>mainpc := MDrain\<rparr>"
  | "e = Main" "mainpc s = MDrain" "done_closed s" "s' = s\<lparr>mainpc := MLoadQueryCount\<rparr>"
  | "e = Main" "mainpc s = MLoadQueryCount"
      "s' = s\<lparr>finalQueryCount := queryCount s, mainpc := MLoadSuccessCount\<rparr>"
  | "e = Main" "mainpc s = MLoadSuccessCount"
      "s' = s\<lparr>finalSuccessCount := successCount s, mainpc := MReporting\<rparr>"
  | elapsed p where "e = Report elapsed" "mainpc s = MReporting"
      "computeStats (totalDuration s) (finalQueryCount s) (finalSuccessCount s) elapsed = Inl p"
      "s' = crash p s"
  | elapsed st where "e = Report elapsed" "mainpc s = MReporting"
      "computeStats (totalDuration s) (finalQueryCount s) (finalSuccessCount s) elapsed = Inr st"
      "s' = s\<lparr>report := Some st, mainpc := MTerminated\<rparr>"
  | "e = Producer" "producer s = PLoop" "more_work cfg (queryCount s)"
      "s' = s\<lparr>producer := PSelect\<rparr>"
  | "e = Producer" "producer s = PLoop" "\<not> more_work cfg (queryCount s)"
      "s' = s\<lparr>producer := PClose\<rparr>"
  | "e = Producer" "producer s = PSelect" "cancelled s" "s' = s\<lparr>producer := PExit\<rparr>"
  | "e = Producer" "producer s = PSelect" "\<not> cancelled s" "s' = s\<lparr>producer := PPush\<rparr>"
  | "e = Producer" "producer s = PCount"
      "s' = s\<lparr>queryCount := queryCount s + 1,
               progress := (if progress_due cfg (queryCount s + 1)
                            then progress s @ [queryCount s + 1] else progress s),
               producer := PLoop\<rparr>"
  | "e = Producer" "producer s = PClose" "jobs_closed s" "s' = crash CloseOfClosedChannel s"
  | "e = Producer" "producer s = PClose" "\<not> jobs_closed s"
      "s' = s\<lparr>jobs_closed := True, producer := PExit\<rparr>"
  | i where "e = Handoff i" "i < length (workers s)" "workers s ! i = WSelect"
      "producer s = PPush"
      "s' = s\<lparr>producer := PCount, workers := (workers s)[i := WQuery], tokens := tokens s + 1\<rparr>"
  | i where "e = Leave i" "i < length (workers s)" "workers s ! i = WSelect"
      "cancelled s \<or> jobs_closed s" "wg s = 0" "s' = crash NegativeWaitGroup s"
  | i where "e = Leave i" "i < length (workers s)" "workers s ! i = WSelect"
      "cancelled s \<or> jobs_closed s" "wg s \<noteq> 0"
      "s' = s\<lparr>workers := (workers s)[i := WExit], wg := wg s - 1\<rparr>"
  | i env calls p where "e = Query i env" "i < length (workers s)" "workers s ! i = WQuery"
      "performDNSQuery env (dnsServer cfg) (domain cfg) (recordType cfg) = (calls, Inl p)"
      "s' = crash p (s\<lparr>netlog := netlog s @ calls\<rparr>)"
  | i env calls r where "e = Query i env" "i < length (workers s)" "workers s ! i = WQuery"
      "performDNSQuery env (dnsServer cfg) (domain cfg) (recordType cfg) = (calls, Inr r)"
      "s' = s\<lparr>netlog := netlog s @ calls, workers := (workers s)[i := WSend r]\<rparr>"
  | i r where "e = Send i" "i < length (workers s)" "workers s ! i = WSend r"
      "results_closed s" "s' = crash SendOnClosedChannel s"
  | i r where "e = Send i" "i < length (workers s)" "workers s ! i = WSend r"
      "\<not> results_closed s" "length (results s) < results_cap s"
      "s' = s\<lparr>results := results s @ [r], workers := (workers s)[i := WSelect],
               sent := sent s + 1\<rparr>"
  | "e = Closer" "closer s = CWait" "wg s = 0" "s' = s\<lparr>closer := CClose\<rparr>"
  | "e = Closer" "closer s = CClose" "results_closed s" "s' = crash CloseOfClosedChannel s"
  | "e = Closer" "closer s = CClose" "\<not> results_closed s"
      "s' = s\<lparr>results_closed := True, closer := CExit\<rparr>"
  | r rs where "e = Aggregator" "aggregator s = ARange" "results s = r # rs"
      "s' = s\<lparr>results := rs, totalDuration := totalDuration s + Duration r,
               successCount := (if Success r then successCount s + 1 else successCount s),
               aggregated := aggregated s + 1\<rparr>"
  | "e = Aggregator" "aggregator s = ARange" "results s = []" "results_closed s"
      "s' = s\<lparr>aggregator := ACloseDone\<rparr>"
  | "e = Aggregator" "aggregator s = ACloseDone" "done_closed s"
      "s' = crash CloseOfClosedChannel s"
  | "e = Aggregator" "aggregator s = ACloseDone" "\<not> done_closed s"
      "s' = s\<lparr>done_closed := True, aggregator := AExit\<rparr>"
proof -
  from assms have a: "alive s" by (rule step_alive)
  show ?thesis
  proof (cases e)
    case Signal
    with assms a have "signal_step s = Some s'" by (simp add: step_def)
    then show ?thesis using Signal that(1) by (cases rule: signal_step_cases) blast
  next
    case Main
    with assms a have "main_step s = Some s'" by (simp add: step_def)
    then show ?thesis using Main that(2-5) by (cases rule: main_step_cases) blast+
  next
    case (Report elapsed)
    with assms a have "report_step elapsed s = Some s'" by (simp add: step_def)
    then show ?thesis using Report that(6-7) by (cases rule: report_step_cases) blast+
  next
    case Producer
    with assms a have "producer_step cfg s = Some s'" by (simp add: step_def)
    then show ?thesis using Producer that(8-14) by (cases rule: producer_step_cases) blast+
  next
    case (Handoff i)
    with assms a have "handoff_step i s = Some s'" by (simp add: step_def)
    then show ?thesis using Handoff that(15) by (cases rule: handoff_step_cases) blast
  next
    case (Leave i)
    with assms a have "leave_step i s = Some s'" by (simp add: step_def)
    then show ?thesis using Leave that(16-17) by (cases rule: leave_step_cases) blast+
  next
    case (Query i env)
    with assms a have "query_step cfg i env s = Some s'" by (simp add: step_def)
    then show ?thesis using Query that(18-19) by (cases rule: query_step_cases) blast+
  next
    case (Send i)
    with assms a have "send_step i s = Some s'" by (simp add: step_def)
    then show ?thesis using Send that(20-21) by (cases rule: send_step_cases) blast+
  next
    case Closer
    with assms a have "closer_step s = Some s'" by (simp add: step_def)
    then show ?thesis using Closer that(22-24) by (cases rule: closer_step_cases) blast+
  next
    case Aggregator
    with assms a have "aggregator_step s = Some s'" by (simp add: step_def)
    then show ?thesis using Aggregator that(25-28) by (cases rule: aggregator_step_cases) blast+
  qed
qed

subsection \<open>Counting workers\<close>

lemma filter_update_count:
  "i < length ws \<Longrightarrow>
   length (filter P (ws[i := x])) + (if P (ws ! i) then 1 else 0) =
   length (filter P ws) + (if P x then 1 else 0)"
proof (induction ws arbitrary: i)
  case Nil
  then show ?case by simp
next
  case (Cons w ws)
  show ?case
  proof (cases i)
    case 0
    then show ?thesis by simp
  next
    case (Suc j)
    with Cons.prems have "j < length ws" by simp
    from Cons.IH [OF this] Suc show ?thesis by simp
  qed
qed

lemma filter_update_same:
  "i < length ws \<Longrightarrow> P (ws ! i) = P x \<Longrightarrow> length (filter P (ws[i := x])) = length (filter P ws)"
  using filter_update_count [of i ws P x] by (simp split: if_splits)

lemma filter_update_gain:
  "i < length ws \<Longrightarrow> \<not> P (ws ! i) \<Longrightarrow> P x \<Longrightarrow>
   length (filter P (ws[i := x])) = Suc (length (filter P ws))"
  using filter_update_count [of i ws P x] by simp

lemma filter_update_lose:
  "i < length ws \<Longrightarrow> P (ws ! i) \<Longrightarrow> \<not> P x \<Longrightarrow>
   length (filter P ws) = Suc (length (filter P (ws[i := x])))"
  using filter_update_count [of i ws P x] by simp

lemma running_keep:
  "i < length ws \<Longrightarrow> ws ! i \<noteq> WExit \<Longrightarrow> x \<noteq> WExit \<Longrightarrow> running (ws[i := x]) = running ws"
  unfolding running_def by (rule filter_update_same) simp_all

lemma running_leave:
  "i < length ws \<Longrightarrow> ws ! i \<noteq> WExit \<Longrightarrow> running ws = Suc (running (ws[i := WExit]))"
  unfolding running_def by (rule filter_update_lose) simp_all

lemma running_pos: "i < length ws \<Longrightarrow> ws ! i \<noteq> WExit \<Longrightarrow> 0 < running ws"
  using running_leave [of i ws] by simp

lemma running_zero: "running ws = 0 \<Longrightarrow> i < length ws \<Longrightarrow> ws ! i = WExit"
  using running_pos [of i ws] by auto

lemma running_witness:
  assumes "0 < running ws"
  obtains i where "i < length ws" "ws ! i \<noteq> WExit"
proof -
  from assms have "filter (\<lambda>w. w \<noteq> WExit) ws \<noteq> []" by (auto simp: running_def)
  then obtain w where "w \<in> set ws" "w \<noteq> WExit" by (auto simp: filter_empty_conv)
  then show ?thesis using that by (auto simp: in_set_conv_nth)
qed

lemma running_replicate: "running (replicate n WSelect) = n"
  by (simp add: running_def)

lemma running_Nil: "running [] = 0"
  by (simp add: running_def)

lemma busy_keep:
  "i < length ws \<Longrightarrow> holds_token (ws ! i) = holds_token x \<Longrightarrow> busy (ws[i := x]) = busy ws"
  unfolding busy_def by (rule filter_update_same)

lemma busy_gain:
  "i < length ws \<Longrightarrow> \<not> holds_token (ws ! i) \<Longrightarrow> holds_token x \<Longrightarrow>
   busy (ws[i := x]) = Suc (busy ws)"
  unfolding busy_def by (rule filter_update_gain)

lemma busy_lose:
  "i < length ws \<Longrightarrow> holds_token (ws ! i) \<Longrightarrow> \<not> holds_token x \<Longrightarrow>
   busy ws = Suc (busy (ws[i := x]))"
  unfolding busy_def by (rule filter_update_lose)

lemma busy_replicate: "busy (replicate n WSelect) = 0"
  by (simp add: busy_def)

lemma busy_Nil: "busy [] = 0"
  by (simp add: busy_def)


lemma workers_left_update:
  "i < length ws \<Longrightarrow>
   workers_left (ws[i := x]) + worker_left (ws ! i) = workers_left ws + worker_left x"
  unfolding workers_left_def
proof (induction ws arbitrary: i)
  case Nil
  then show ?case by simp
next
  case (Cons w ws)
  show ?case
  proof (cases i)
    case 0
    then show ?thesis by simp
  next
    case (Suc j)
    with Cons.prems have "j < length ws" by simp
    from Cons.IH [OF this] Suc show ?thesis by simp
  qed
qed

lemma workers_left_Nil: "workers_left [] = 0"
  by (simp add: workers_left_def)

lemma workers_left_replicate: "workers_left (replicate n WSelect) = n"
  by (induction n) (simp_all add: workers_left_def)

subsection \<open>The counter of the producer\<close>

text \<open>Below another \<open>int64\<close>, the increment does not wrap.\<close>

lemma sint_succ:
  fixes x y :: int64
  assumes "sint x < sint y"
  shows "sint (x + 1) = sint x + 1"
proof -
  have "sint y < 2 ^ 63" using sint_lt [of y] by simp
  moreover have "- (2 ^ 63) \<le> sint x" using sint_ge [of x] by simp
  ultimately have "signed_take_bit 63 (sint x + 1) = sint x + 1"
    using assms by (intro signed_take_bit_int_eq_self) auto
  then show ?thesis by (simp add: sint_word_ariths)
qed

lemma more_work_bounded:
  "0 \<le> sint (queries cfg) \<Longrightarrow> more_work cfg c \<longleftrightarrow> sint c < sint (queries cfg)"
  by (auto simp: more_work_def word_sless_alt)

subsection \<open>Every step keeps the invariants\<close>

lemma shape_inv_step:
  assumes "step cfg e s = Some s'" "shape_inv mem cfg s"
  shows "shape_inv mem cfg s'"
proof (cases "pool_fits mem cfg")
  case True
  from assms(1) show ?thesis
    by (cases rule: step_cases) (use assms(2) True in \<open>auto simp: shape_inv_def crash_def\<close>)
next
  case False
  with assms(2) have "s = init mem cfg" by (simp add: shape_inv_def)
  with False have "crashed s \<noteq> None" by (simp add: init_dead)
  with step_alive [OF assms(1)] show ?thesis by (simp add: alive_def)
qed

lemma barrier_inv_step:
  assumes "step cfg e s = Some s'" "barrier_inv s"
  shows "barrier_inv s'"
  using assms(1)
proof (cases rule: step_cases)
  case (leave i)
  with assms(2) running_leave [of i "workers s"] show ?thesis
    by (auto simp: barrier_inv_def)
qed (use assms(2) in \<open>auto simp: barrier_inv_def crash_def running_keep\<close>)

lemma flow_inv_step:
  assumes "step cfg e s = Some s'" "flow_inv s"
  shows "flow_inv s'"
  using assms(1)
proof (cases rule: step_cases)
  case (send i r)
  with assms(2) busy_lose [of i "workers s" WSelect] show ?thesis
    by (auto simp: flow_inv_def)
qed (use assms(2) in \<open>auto simp: flow_inv_def crash_def busy_keep busy_gain\<close>)

lemma channel_inv_step:
  assumes "step cfg e s = Some s'" "channel_inv s"
  shows "channel_inv s'"
  using assms(1)
  by (cases rule: step_cases) (use assms(2) in \<open>auto simp: channel_inv_def crash_def\<close>)

lemma quiet_inv_step:
  assumes "step cfg e s = Some s'" "quiet_inv s"
  shows "quiet_inv s'"
  using assms(1)
  by (cases rule: step_cases)
    (use assms(2) in \<open>auto simp: quiet_inv_def crash_def nth_list_update\<close>)

lemma producer_inv_step:
  assumes "step cfg e s = Some s'" "producer_inv cfg s" "channel_inv s"
  shows "producer_inv cfg s'"
  using assms(1)
proof (cases rule: step_cases)
  case loop_end
  show ?thesis
  proof (cases "0 \<le> sint (queries cfg)")
    case True
    with loop_end assms(2) have "sint (queryCount s) = sint (queries cfg)"
      by (auto simp: producer_inv_def more_work_bounded)
    then have "queryCount s = queries cfg" by (rule signed_word_eqI)
    with True loop_end assms(2) show ?thesis by (auto simp: producer_inv_def)
  qed (simp add: producer_inv_def)
next
  case count
  show ?thesis
  proof (cases "0 \<le> sint (queries cfg)")
    case True
    with count assms(2) have lt: "sint (queryCount s) < sint (queries cfg)"
      by (auto simp: producer_inv_def)
    from sint_succ [OF lt] lt True count assms(2) show ?thesis
      by (auto simp: producer_inv_def)
  qed (simp add: producer_inv_def)
qed (use assms(2,3) in \<open>auto simp: producer_inv_def channel_inv_def crash_def more_work_bounded\<close>)

lemma inv_init: "inv mem cfg (init mem cfg)"
proof -
  have "shape_inv mem cfg (init mem cfg)"
    by (simp add: shape_inv_def) (simp add: init_unfold Let_def)
  moreover have "barrier_inv (init mem cfg)" "flow_inv (init mem cfg)"
    "channel_inv (init mem cfg)" "quiet_inv (init mem cfg)" "producer_inv cfg (init mem cfg)"
    by (simp_all add: init_unfold Let_def barrier_inv_def flow_inv_def channel_inv_def
        quiet_inv_def producer_inv_def running_replicate busy_replicate running_Nil busy_Nil)
  ultimately show ?thesis by (simp add: inv_def)
qed

lemma inv_step:
  assumes "step cfg e s = Some s'" "inv mem cfg s"
  shows "inv mem cfg s'"
proof -
  note st = assms(1)
  from assms(2) have sh: "shape_inv mem cfg s" and ba: "barrier_inv s" and fl: "flow_inv s"
    and ch: "channel_inv s" and qu: "quiet_inv s" and pr: "producer_inv cfg s"
    by (simp_all add: inv_def)
  show ?thesis
    unfolding inv_def
    using shape_inv_step [OF st sh] barrier_inv_step [OF st ba] flow_inv_step [OF st fl]
      channel_inv_step [OF st ch] quiet_inv_step [OF st qu] producer_inv_step [OF st pr ch]
    by simp
qed

lemma inv_run:
  assumes "run cfg es (init mem cfg) = Some s"
  shows "inv mem cfg s"
  using assms inv_init by (rule run_invariant) (rule inv_step)





text \<open>
  At every point of every run: the successes counted are among the results aggregated,
  these among the results sent, and these among the tokens handed to workers.
\<close>

lemma unat_succ_le: "unat (x + 1 :: int64) \<le> unat x + 1"
proof -
  have "unat (x + 1) = (unat x + 1) mod 2 ^ 64" by (simp add: unat_word_ariths)
  also have "\<dots> \<le> unat x + 1" by (rule mod_less_eq_dividend)
  finally show ?thesis .
qed

lemma success_inv_step:
  assumes "step cfg e s = Some s'" "success_inv s"
  shows "success_inv s'"
  using assms(1)
proof (cases rule: step_cases)
  case (take r rs)
  with assms(2) unat_succ_le [of "successCount s"] show ?thesis
    by (simp add: success_inv_def)
qed (use assms(2) in \<open>simp_all add: success_inv_def crash_def\<close>)

lemma successes_within_tokens:
  assumes "run cfg es (init mem cfg) = Some s"
  shows "unat (successCount s) \<le> aggregated s \<and> aggregated s \<le> sent s \<and> sent s \<le> tokens s"
proof -
  have "success_inv s"
    using assms
  proof (rule run_invariant)
    show "success_inv (init mem cfg)" by (simp add: success_inv_def init_unfold Let_def)
  qed (rule success_inv_step)
  moreover from assms have "flow_inv s" using inv_run by (simp add: inv_def)
  ultimately show ?thesis by (simp add: success_inv_def flow_inv_def)
qed

subsection \<open>The panics\<close>

lemma computeStats_panic:
  "computeStats td q sc el = Inl p \<Longrightarrow> p = DivideByZero \<and> q = 0"
  by (auto simp: computeStats_def int64_div_def Let_def split: if_splits sum.splits)

lemma performDNSQuery_panic:
  "snd (performDNSQuery env srv d rt) = Inl p \<Longrightarrow> p = CreatingName \<and> nameLen \<le> length d"
  by (auto simp: performDNSQuery_def buildQuery_def MustNewName_def NewName_def
      split: if_splits sum.splits option.splits)

lemma panic_inv_step:
  assumes "step cfg e s = Some s'" "panic_inv mem cfg s" "inv mem cfg s"
  shows "panic_inv mem cfg s'"
proof -
  from assms(1) have "alive s" by (rule step_alive)
  then have nc: "crashed s = None" and nt: "mainpc s \<noteq> MTerminated" by (simp_all add: alive_def)
  from assms(3) have ba: "barrier_inv s" and ch: "channel_inv s" by (simp_all add: inv_def)
  from assms(1) show ?thesis
  proof (cases rule: step_cases)
    case (report_panic elapsed p)
    with computeStats_panic show ?thesis by (auto simp: panic_inv_def crash_def)
  next
    case (query_panic i env calls p)
    then have "snd (performDNSQuery env (dnsServer cfg) (domain cfg) (recordType cfg)) = Inl p"
      by simp
    from performDNSQuery_panic [OF this] query_panic show ?thesis
      by (simp add: panic_inv_def crash_def)
  next
    case close_jobs_panic
    with ch show ?thesis by (simp add: channel_inv_def)
  next
    case (leave_panic i)
    with ba running_pos [of i "workers s"] show ?thesis by (simp add: barrier_inv_def)
  next
    case (send_panic i r)
    with ba running_pos [of i "workers s"] show ?thesis by (auto simp: barrier_inv_def)
  next
    case close_results_panic
    with ba show ?thesis by (simp add: barrier_inv_def)
  next
    case close_done_panic
    with ch show ?thesis by (simp add: channel_inv_def)
  qed (use nc in \<open>simp_all add: panic_inv_def\<close>)
qed

lemma panic_inv_init: "panic_inv mem cfg (init mem cfg)"
  by (simp add: panic_inv_def init_unfold Let_def)

lemma panic_inv_run:
  assumes "run cfg es (init mem cfg) = Some s"
  shows "inv mem cfg s \<and> panic_inv mem cfg s"
  using assms
proof (rule run_invariant)
  show "inv mem cfg (init mem cfg) \<and> panic_inv mem cfg (init mem cfg)"
    by (simp add: inv_init panic_inv_init)
next
  fix e t t'
  assume "step cfg e t = Some t'" "inv mem cfg t \<and> panic_inv mem cfg t"
  then show "inv mem cfg t' \<and> panic_inv mem cfg t'"
    using inv_step panic_inv_step by blast
qed

subsection \<open>A pool of no workers\<close>

lemma idle_inv_step:
  assumes "step cfg e s = Some s'" "idle_inv s"
  shows "idle_inv s'"
  using assms(1)
  by (cases rule: step_cases) (use assms(2) in \<open>simp_all add: idle_inv_def crash_def\<close>)

lemma idle_inv_run:
  assumes "run cfg es (init mem cfg) = Some s" "sint (concurrency cfg) = 0"
  shows "idle_inv s"
  using assms(1)
proof (rule run_invariant)
  from assms(2) show "idle_inv (init mem cfg)" by (simp add: idle_inv_def init_unfold Let_def)
qed (rule idle_inv_step)

subsection \<open>Runs with a limit are finite\<close>

lemma potential_step:
  assumes "step cfg e s = Some s'" "tokens s' \<le> L" "aggregated s' \<le> L"
  shows "potential L s' < potential L s"
proof -
  from assms(1) have "alive s" by (rule step_alive)
  then have nc: "crashed s = None" by (simp add: alive_def)
  from assms(1) show ?thesis
  proof (cases rule: step_cases)
    case (handoff i)
    with assms(2) nc workers_left_update [of i "workers s" WQuery] show ?thesis
      by (simp add: potential_def)
  next
    case (leave i)
    with nc workers_left_update [of i "workers s" WExit] show ?thesis
      by (simp add: potential_def)
  next
    case (query i env calls r)
    with nc workers_left_update [of i "workers s" "WSend r"] show ?thesis
      by (simp add: potential_def)
  next
    case (send i r)
    with nc workers_left_update [of i "workers s" WSelect] show ?thesis
      by (simp add: potential_def)
  next
    case (take r rs)
    with assms(3) nc show ?thesis by (simp add: potential_def)
  qed (use nc in \<open>simp_all add: potential_def crash_def\<close>)
qed

lemma step_counts_mono:
  assumes "step cfg e s = Some s'"
  shows "tokens s \<le> tokens s' \<and> aggregated s \<le> aggregated s'"
  using assms by (cases rule: step_cases) (simp_all add: crash_def)

lemma run_counts_mono:
  assumes "run cfg es s = Some s'"
  shows "tokens s \<le> tokens s' \<and> aggregated s \<le> aggregated s'"
  using assms
proof (induction es arbitrary: s)
  case Nil
  then show ?case by simp
next
  case (Cons e es)
  from Cons.prems obtain t where t: "step cfg e s = Some t" and r: "run cfg es t = Some s'"
    by (auto split: option.splits)
  from step_counts_mono [OF t] Cons.IH [OF r] show ?case by simp
qed

lemma run_potential:
  assumes "run cfg es s = Some s'" "tokens s' \<le> L" "aggregated s' \<le> L"
  shows "length es + potential L s' \<le> potential L s"
  using assms(1)
proof (induction es arbitrary: s)
  case Nil
  then show ?case by simp
next
  case (Cons e es)
  from Cons.prems obtain t where t: "step cfg e s = Some t" and r: "run cfg es t = Some s'"
    by (auto split: option.splits)
  from run_counts_mono [OF r] assms(2,3) have "tokens t \<le> L" "aggregated t \<le> L" by simp_all
  with t have "potential L t < potential L s" by (rule potential_step)
  with Cons.IH [OF r] show ?case by simp
qed

lemma potential_init:
  "potential L (init mem cfg) \<le> 7 * L + nat (sint (concurrency cfg)) + 12"
  by (auto simp: potential_def init_unfold Let_def workers_left_replicate workers_left_Nil
      pool_fits_def)



subsection \<open>Enabled events\<close>

lemma main_enabled:
  assumes "alive s" "mainpc s \<noteq> MReporting"
    "mainpc s = MSelect \<or> mainpc s = MDrain \<longrightarrow> done_closed s"
  shows "step cfg Main s \<noteq> None"
  using assms by (cases "mainpc s") (simp_all add: step_def main_step_def alive_def)

lemma report_enabled:
  assumes "alive s" "mainpc s = MReporting"
  shows "step cfg (Report elapsed) s \<noteq> None"
  using assms by (simp add: step_def report_step_def split: sum.split)

lemma producer_enabled:
  assumes "alive s" "producer s \<noteq> PPush" "producer s \<noteq> PExit"
  shows "step cfg Producer s \<noteq> None"
  using assms by (cases "producer s") (simp_all add: step_def producer_step_def Let_def)

lemma handoff_enabled:
  assumes "alive s" "producer s = PPush" "i < length (workers s)" "workers s ! i = WSelect"
  shows "step cfg (Handoff i) s \<noteq> None"
  using assms by (simp add: step_def handoff_step_def)

lemma leave_enabled:
  assumes "alive s" "i < length (workers s)" "workers s ! i = WSelect"
    "cancelled s \<or> jobs_closed s"
  shows "step cfg (Leave i) s \<noteq> None"
  using assms by (simp add: step_def leave_step_def)

lemma query_enabled:
  assumes "alive s" "i < length (workers s)" "workers s ! i = WQuery"
  shows "step cfg (Query i env) s \<noteq> None"
  using assms by (simp add: step_def query_step_def Let_def split: sum.split prod.split)

lemma send_enabled:
  assumes "alive s" "i < length (workers s)" "workers s ! i = WSend r"
    "results_closed s \<or> length (results s) < results_cap s"
  shows "step cfg (Send i) s \<noteq> None"
  using assms by (auto simp: step_def send_step_def)

lemma closer_enabled:
  assumes "alive s" "closer s = CClose \<or> closer s = CWait \<and> wg s = 0"
  shows "step cfg Closer s \<noteq> None"
  using assms by (cases "closer s") (simp_all add: step_def closer_step_def)

lemma aggregator_enabled:
  assumes "alive s"
    "aggregator s = ACloseDone \<or> aggregator s = ARange \<and> (results s \<noteq> [] \<or> results_closed s)"
  shows "step cfg Aggregator s \<noteq> None"
  using assms
  by (cases "aggregator s"; cases "results s") (simp_all add: step_def aggregator_step_def)

text \<open>With the barrier open, the closer, the aggregator or main can move until main
  reports.\<close>

lemma drain_progress:
  assumes "inv mem cfg s" "alive s" "mainpc s \<noteq> MReporting" "wg s = 0"
  shows "step cfg Closer s \<noteq> None \<or> step cfg Aggregator s \<noteq> None \<or> step cfg Main s \<noteq> None"
proof -
  from assms(1) have ba: "barrier_inv s" and ch: "channel_inv s" by (simp_all add: inv_def)
  show ?thesis
  proof (cases "closer s = CExit")
    case False
    with assms(4) have "closer s = CClose \<or> closer s = CWait \<and> wg s = 0"
      by (cases "closer s") simp_all
    with assms(2) show ?thesis by (simp add: closer_enabled)
  next
    case True
    with ba have rc: "results_closed s" by (simp add: barrier_inv_def)
    show ?thesis
    proof (cases "aggregator s = AExit")
      case False
      with rc have
        "aggregator s = ACloseDone \<or> aggregator s = ARange \<and> (results s \<noteq> [] \<or> results_closed s)"
        by (cases "aggregator s") simp_all
      with assms(2) show ?thesis by (simp add: aggregator_enabled)
    next
      case True
      with ch have "done_closed s" by (simp add: channel_inv_def)
      with assms(2,3) show ?thesis by (simp add: main_enabled)
    qed
  qed
qed

lemma alive_fits:
  assumes "shape_inv mem cfg s" "alive s"
  shows "pool_fits mem cfg"
proof (rule ccontr)
  assume n: "\<not> pool_fits mem cfg"
  with assms(1) have "s = init mem cfg" by (simp add: shape_inv_def)
  with init_dead [OF n] assms(2) show False by (simp add: alive_def)
qed

text \<open>A run that was not cancelled is never stuck while the process lives.\<close>

lemma progress:
  assumes "inv mem cfg s" "alive s" "\<not> cancelled s"
  shows "\<exists>e. e \<noteq> Signal \<and> step cfg e s \<noteq> None"
proof -
  from assms(1) have sh: "shape_inv mem cfg s" and ba: "barrier_inv s" and ch: "channel_inv s"
    and qu: "quiet_inv s"
    by (simp_all add: inv_def)
  show ?thesis
  proof (cases "mainpc s = MReporting")
    case True
    with assms(2) have "step cfg (Report 0) s \<noteq> None" by (rule report_enabled)
    then show ?thesis by blast
  next
    case nr: False
    show ?thesis
    proof (cases "wg s = 0")
      case True
      from drain_progress [OF assms(1,2) nr True] show ?thesis by blast
    next
      case False
      with ba have "0 < running (workers s)" by (simp add: barrier_inv_def)
      then obtain i where i: "i < length (workers s)" "workers s ! i \<noteq> WExit"
        by (rule running_witness)
      from ba False have nrc: "\<not> results_closed s" by (auto simp: barrier_inv_def)
      show ?thesis
      proof (cases "workers s ! i")
        case WQuery
        with assms(2) i have "step cfg (Query i friendly_net) s \<noteq> None"
          by (simp add: query_enabled)
        then show ?thesis by blast
      next
        case (WSend r)
        show ?thesis
        proof (cases "results s = []")
          case True
          from sh assms(2) have "pool_fits mem cfg" by (rule alive_fits)
          with True sh i have "length (results s) < results_cap s" by (simp add: shape_inv_def)
          with assms(2) i WSend have "step cfg (Send i) s \<noteq> None" by (simp add: send_enabled)
          then show ?thesis by blast
        next
          case False
          with ch nrc have "aggregator s = ARange \<and> (results s \<noteq> [] \<or> results_closed s)"
            by (auto simp: channel_inv_def)
          with assms(2) have "step cfg Aggregator s \<noteq> None" by (simp add: aggregator_enabled)
          then show ?thesis by blast
        qed
      next
        case WSelect
        show ?thesis
        proof (cases "jobs_closed s")
          case True
          with assms(2) i WSelect have "step cfg (Leave i) s \<noteq> None" by (simp add: leave_enabled)
          then show ?thesis by blast
        next
          case False
          with qu assms(3) have ne: "producer s \<noteq> PExit" by (auto simp: quiet_inv_def)
          show ?thesis
          proof (cases "producer s = PPush")
            case True
            with assms(2) i WSelect have "step cfg (Handoff i) s \<noteq> None"
              by (simp add: handoff_enabled)
            then show ?thesis by blast
          next
            case False
            with assms(2) ne have "step cfg Producer s \<noteq> None" by (simp add: producer_enabled)
            then show ?thesis by blast
          qed
        qed
      next
        case WExit
        with i show ?thesis by simp
      qed
    qed
  qed
qed

subsection \<open>A producer left at the send\<close>

text \<open>When every worker has returned, nothing receives from \<open>jobs\<close> any more.\<close>

lemma producer_blocked_step:
  assumes "step cfg e s = Some s'" "producer s = PPush \<and> \<not> jobs_closed s \<and> running (workers s) = 0"
  shows "producer s' = PPush \<and> \<not> jobs_closed s' \<and> running (workers s') = 0"
  using assms(1)
proof (cases rule: step_cases)
  case (handoff i)
  with assms(2) running_pos [of i "workers s"] show ?thesis by simp
next
  case (leave i)
  with assms(2) running_pos [of i "workers s"] show ?thesis by simp
next
  case (query i env calls r)
  with assms(2) running_pos [of i "workers s"] show ?thesis by simp
next
  case (send i r)
  with assms(2) running_pos [of i "workers s"] show ?thesis by simp
qed (use assms(2) in \<open>simp_all add: crash_def\<close>)

lemma producer_blocked_run:
  assumes "run cfg es s = Some s'" "producer s = PPush \<and> \<not> jobs_closed s \<and> running (workers s) = 0"
  shows "producer s' = PPush \<and> \<not> jobs_closed s' \<and> running (workers s') = 0"
  using assms by (rule run_invariant) (rule producer_blocked_step)

subsection \<open>The network calls\<close>

lemma dials_append: "dials (xs @ ys) = dials xs @ dials ys"
  by (induction xs rule: dials.induct) simp_all

lemma datagrams_append: "datagrams (xs @ ys) = datagrams xs @ datagrams ys"
  by (induction xs rule: datagrams.induct) simp_all

text \<open>The message of an attempt, in closed form.\<close>

lemma buildQuery_eq:
  "buildQuery mid d rt =
     (if length d < nameLen
      then Inr \<lparr>ID = mid, RecursionDesired = True,
                Questions = [\<lparr>Name = d @ ''.'', Type = rt, Class = ClassINET\<rparr>]\<rparr>
      else Inl CreatingName)"
  by (auto simp: buildQuery_def MustNewName_def NewName_def)

text \<open>
  An attempt dials the address it is given, once; it writes one datagram, the packed form
  of its message, exactly when the dial succeeds, the name is built and the message packs.
\<close>

lemma performDNSQuery_dials: "dials (fst (performDNSQuery env srv d rt)) = [srv]"
  by (simp add: performDNSQuery_def split: sum.split option.split)

lemma performDNSQuery_datagrams:
  "datagrams (fst (performDNSQuery env srv d rt)) =
     (if dial env srv
      then (case buildQuery (rand_id env) d rt of
              Inl p \<Rightarrow> []
            | Inr m \<Rightarrow> (case pack env m of None \<Rightarrow> [] | Some packed \<Rightarrow> [packed]))
      else [])"
  by (simp add: performDNSQuery_def split: sum.split option.split)

lemma sending_keep:
  "i < length ws \<Longrightarrow> has_result (ws ! i) = has_result x \<Longrightarrow> sending (ws[i := x]) = sending ws"
  unfolding sending_def by (rule filter_update_same)

lemma sending_gain:
  "i < length ws \<Longrightarrow> \<not> has_result (ws ! i) \<Longrightarrow> has_result x \<Longrightarrow>
   sending (ws[i := x]) = Suc (sending ws)"
  unfolding sending_def by (rule filter_update_gain)

lemma sending_lose:
  "i < length ws \<Longrightarrow> has_result (ws ! i) \<Longrightarrow> \<not> has_result x \<Longrightarrow>
   sending ws = Suc (sending (ws[i := x]))"
  unfolding sending_def by (rule filter_update_lose)

lemma sending_Nil: "sending [] = 0"
  by (simp add: sending_def)

lemma sending_replicate: "sending (replicate n WSelect) = 0"
  by (simp add: sending_def)

lemma attempt_in_log:
  assumes "performDNSQuery env (dnsServer cfg) (domain cfg) (recordType cfg) = (calls, outcome)"
  shows "dials calls = [dnsServer cfg]"
    and "list_all (\<lambda>packed. \<exists>(env::net_env) m. buildQuery (rand_id env) (domain cfg) (recordType cfg) = Inr m \<and>
                                     pack env m = Some packed) (datagrams calls)"
proof -
  from assms have c: "calls = fst (performDNSQuery env (dnsServer cfg) (domain cfg) (recordType cfg))"
    by simp
  show "dials calls = [dnsServer cfg]" unfolding c by (rule performDNSQuery_dials)
  show "list_all (\<lambda>packed. \<exists>(env::net_env) m. buildQuery (rand_id env) (domain cfg) (recordType cfg) = Inr m \<and>
                                     pack env m = Some packed) (datagrams calls)"
    unfolding c performDNSQuery_datagrams
    by (auto split: sum.split option.split)
qed

text \<open>The step of a worker at line 130 appends the calls of its attempt to the log.\<close>

lemma query_step_logs:
  assumes "step cfg (Query i env) s = Some s'"
  shows "netlog s' = netlog s @ fst (performDNSQuery env (dnsServer cfg) (domain cfg) (recordType cfg))"
  using assms by (cases rule: step_cases) (simp_all add: crash_def)

lemma netlog_inv_step:
  assumes "step cfg e s = Some s'" "netlog_inv cfg s"
  shows "netlog_inv cfg s'"
  using assms(1)
proof (cases rule: step_cases)
  case (query_panic i env calls p)
  from attempt_in_log [OF query_panic(4)] query_panic assms(2) show ?thesis
    by (simp add: netlog_inv_def crash_def dials_append datagrams_append)
next
  case (query i env calls r)
  from attempt_in_log [OF query(4)] query assms(2) show ?thesis
    by (simp add: netlog_inv_def dials_append datagrams_append sending_gain)
next
  case (send i r)
  with assms(2) sending_lose [of i "workers s" WSelect] show ?thesis
    by (simp add: netlog_inv_def)
qed (use assms(2) in \<open>simp_all add: netlog_inv_def crash_def sending_keep\<close>)

lemma netlog_inv_run:
  assumes "run cfg es (init mem cfg) = Some s"
  shows "netlog_inv cfg s"
  using assms
proof (rule run_invariant)
  show "netlog_inv cfg (init mem cfg)"
    by (simp add: netlog_inv_def init_unfold Let_def sending_Nil sending_replicate)
qed (rule netlog_inv_step)

subsection \<open>Every run with a limit can reach the report\<close>






subsection \<open>The sequential functions\<close>

lemma strings_Contains_char: "strings_Contains s [c] \<longleftrightarrow> c \<in> set s"
  by (induction s) auto

text \<open>
  With a domain short enough for a name, the executor returns a result; the result is a
  success exactly when all five calls succeeded, and a failure exactly when a line was
  logged.
\<close>

lemma performDNSQuery_returns:
  assumes "length d < nameLen"
  shows "\<exists>r. snd (performDNSQuery env srv d rt) = Inr r \<and>
    (Success r \<longleftrightarrow>
       dial env srv \<and>
       (\<exists>m packed dgram. buildQuery (rand_id env) d rt = Inr m \<and> pack env m = Some packed \<and>
          conn_write env packed \<and> conn_read env = Some dgram \<and> unpack env (read_buffer dgram))) \<and>
    (\<not> Success r \<longleftrightarrow> (\<exists>msg. LogPrintf msg \<in> set (fst (performDNSQuery env srv d rt))))"
  using assms
  by (auto simp: performDNSQuery_def buildQuery_def MustNewName_def NewName_def failed_def
      succeeded_def split: option.splits)

text \<open>It panics exactly when the dial succeeds and the domain leaves no room for the dot.\<close>

lemma performDNSQuery_panics_iff:
  "snd (performDNSQuery env srv d rt) = Inl p \<longleftrightarrow>
     dial env srv \<and> nameLen \<le> length d \<and> p = CreatingName"
  by (auto simp: performDNSQuery_def buildQuery_def MustNewName_def NewName_def
      split: if_splits sum.splits option.splits)

text \<open>The statistics panic exactly for a query count of zero.\<close>

lemma computeStats_panics_iff:
  "computeStats td q sc el = Inl p \<longleftrightarrow> q = 0 \<and> p = DivideByZero"
  by (auto simp: computeStats_def int64_div_def Let_def split: if_splits sum.splits)

section \<open>The claims\<close>

text \<open>
  C1. The claim: a run that reaches the report with \<open>finalQueryCount = 0\<close> computes the
  average duration, the throughput and the success rate without a fault. The code: line
  216 divides \<open>totalDuration\<close> by \<open>finalQueryCount\<close> in \<open>int64\<close>, which panics for every
  total duration, success count and elapsed time; a run with \<open>-queries 0\<close> ends so.
\<close>

theorem zero_query_count_divides_by_zero:
  "computeStats td 0 sc el = Inl DivideByZero \<and>
   map_option (\<lambda>s. (mainpc s, finalQueryCount s, crashed s))
     (run (example_cfg 1 0) zero_limit_schedule (init example_mem (example_cfg 1 0))) =
   Some (MReporting, 0, Some DivideByZero)"
  by (simp add: zero_limit_schedule_def run_eval)

text \<open>
  C2. The claim: \<open>performDNSQuery\<close> never panics and returns a \<open>QueryResult\<close> on every
  path. The code: for a domain of 255 bytes \<open>MustNewName\<close> panics after the dial, and the
  panic of the worker ends the run.
\<close>

theorem long_domain_panics:
  "snd (performDNSQuery friendly_net ''8.8.8.8:53'' (replicate 255 CHR ''a'') 1) = Inl CreatingName \<and>
   map_option crashed
     (run long_domain_cfg [Producer, Producer, Handoff 0, Query 0 friendly_net]
        (init example_mem long_domain_cfg)) =
   Some (Some CreatingName)"
  by (simp add: long_domain_cfg_def run_eval)

text \<open>
  C3. The claim: after the cancellation the producer's pending send on the work queue
  never blocks for good. The code: the send stands in the \<open>default\<close> branch, outside the
  \<open>select\<close>. In the run below the interrupt arrives while the producer is at the send;
  the worker returns through \<open>ctx.Done()\<close>; from then on, whatever the program does, the
  producer stays at the send and \<open>jobs\<close> stays open.
\<close>

theorem pending_push_blocks_forever:
  "\<exists>s. run (example_cfg 1 (- 1)) blocked_schedule (init example_mem (example_cfg 1 (- 1))) = Some s \<and>
     cancelled s \<and> producer s = PPush \<and>
     (\<forall>es s'. run (example_cfg 1 (- 1)) es s = Some s' \<longrightarrow> producer s' = PPush \<and> \<not> jobs_closed s')"
proof -
  define s where "s = the (run (example_cfg 1 (- 1)) blocked_schedule (init example_mem (example_cfg 1 (- 1))))"
  have r: "run (example_cfg 1 (- 1)) blocked_schedule (init example_mem (example_cfg 1 (- 1))) = Some s"
    by (simp add: s_def blocked_schedule_def run_eval)
  have c: "cancelled s" and p: "producer s = PPush" and j: "\<not> jobs_closed s"
    and w: "workers s = [WExit]"
    by (simp_all add: s_def blocked_schedule_def run_eval)
  from p j w have "producer s = PPush \<and> \<not> jobs_closed s \<and> running (workers s) = 0"
    by (simp add: running_def)
  then have "\<forall>es s'. run (example_cfg 1 (- 1)) es s = Some s' \<longrightarrow>
      producer s' = PPush \<and> \<not> jobs_closed s'"
    using producer_blocked_run by blast
  with r c p show ?thesis by blast
qed

text \<open>The rest of that run: main returns, the producer still at its send.\<close>

theorem pending_push_blocks_forever_witness:
  "\<exists>s'. run (example_cfg 1 (- 1)) (blocked_schedule @ drain_schedule)
          (init example_mem (example_cfg 1 (- 1))) = Some s' \<and>
     mainpc s' = MTerminated \<and> cancelled s' \<and> producer s' = PPush \<and> \<not> jobs_closed s'"
proof -
  define s' where
    "s' = the (run (example_cfg 1 (- 1)) (blocked_schedule @ drain_schedule)
                 (init example_mem (example_cfg 1 (- 1))))"
  have full: "run (example_cfg 1 (- 1)) (blocked_schedule @ drain_schedule)
      (init example_mem (example_cfg 1 (- 1))) = Some s'"
    by (simp add: s'_def blocked_schedule_def drain_schedule_def run_eval)
  have m: "mainpc s' = MTerminated" and c: "cancelled s'"
    by (simp_all add: s'_def blocked_schedule_def drain_schedule_def run_eval)
  from pending_push_blocks_forever obtain s where
    s: "run (example_cfg 1 (- 1)) blocked_schedule (init example_mem (example_cfg 1 (- 1))) = Some s" and
    forever: "\<forall>es t. run (example_cfg 1 (- 1)) es s = Some t \<longrightarrow> producer t = PPush \<and> \<not> jobs_closed t"
    by blast
  from s full have "run (example_cfg 1 (- 1)) drain_schedule s = Some s'"
    by (simp add: run_append)
  with forever have "producer s' = PPush \<and> \<not> jobs_closed s'" by blast
  with full m c show ?thesis by blast
qed



text \<open>
  C5. In every run, once the closer is past \<open>wg.Wait()\<close>, and so whenever the result
  channel is closed, all workers of the pool have returned; the pool has the size of
  \<open>-concurrency\<close> when it could be built, and no worker otherwise; and no run panics with
  a send on a closed channel.
\<close>

theorem results_closed_after_workers_exit:
  assumes "run cfg es (init mem cfg) = Some s"
  shows "(closer s \<noteq> CWait \<or> results_closed s \<longrightarrow>
            (\<forall>i < length (workers s). workers s ! i = WExit)) \<and>
         length (workers s) = (if pool_fits mem cfg then nat (sint (concurrency cfg)) else 0) \<and>
         crashed s \<noteq> Some SendOnClosedChannel"
proof (intro conjI impI allI)
  from assms have i: "inv mem cfg s" and p: "panic_inv mem cfg s" using panic_inv_run by blast+
  from i have ba: "barrier_inv s" and sh: "shape_inv mem cfg s" by (simp_all add: inv_def)
  {
    fix i
    assume "closer s \<noteq> CWait \<or> results_closed s" and "i < length (workers s)"
    with ba show "workers s ! i = WExit"
      by (auto simp: barrier_inv_def intro: running_zero)
  }
  show "length (workers s) = (if pool_fits mem cfg then nat (sint (concurrency cfg)) else 0)"
  proof (cases "pool_fits mem cfg")
    case True
    with sh show ?thesis by (simp add: shape_inv_def)
  next
    case False
    with sh have "s = init mem cfg" by (simp add: shape_inv_def)
    with False show ?thesis by (simp add: init_unfold Let_def)
  qed
  from p show "crashed s \<noteq> Some SendOnClosedChannel"
    by (auto simp: panic_inv_def)
qed

theorem results_closed_after_workers_exit_witness:
  "\<exists>s. run (example_cfg 1 2) complete_schedule (init example_mem (example_cfg 1 2)) = Some s \<and>
     results_closed s \<and> workers s = [WExit] \<and> crashed s = None"
proof -
  define s where "s = the (run (example_cfg 1 2) complete_schedule (init example_mem (example_cfg 1 2)))"
  have r: "run (example_cfg 1 2) complete_schedule (init example_mem (example_cfg 1 2)) = Some s"
    by (simp add: s_def complete_schedule_def run_eval)
  have c: "results_closed s" and n: "crashed s = None"
    by (simp_all add: s_def complete_schedule_def run_eval)
  have fits: "pool_fits example_mem (example_cfg 1 2)"
    by (simp add: pool_fits_def makechan_in_range_def example_mem_def example_cfg_def)
  from results_closed_after_workers_exit [OF r] c fits
  have "length (workers s) = 1" and "workers s ! 0 = WExit"
    by (simp_all add: example_cfg_def)
  then have "workers s = [WExit]" by (cases "workers s") simp_all
  with r c n show ?thesis by blast
qed

text \<open>
  C6. The claim: \<open>finalSuccessCount \<le> finalQueryCount\<close> in the final report. The code:
  the producer counts a token at line 177, after the worker has received it at line 176,
  and main reads the counter without waiting for the producer. In the run below two
  tokens were handed over and two successes aggregated, and main reports one query, two
  successes and \<open>-1\<close> failures.
\<close>

theorem success_count_exceeds_query_count:
  "map_option (\<lambda>s. (mainpc s, crashed s, finalQueryCount s, finalSuccessCount s,
       finalSuccessCount s <=s finalQueryCount s, tokens s, aggregated s,
       map_option failedQueries (report s)))
     (run (example_cfg 1 (- 1)) race_schedule (init example_mem (example_cfg 1 (- 1)))) =
   Some (MTerminated, None, 1, 2, False, 2, 2, Some (- 1))"
  by (simp add: race_schedule_def run_eval word_sle_eq)

text \<open>
  C7. The record types are exactly the eight of the table, with these codes; for any
  other mnemonic the map has no entry, and the program exits with status 1 under every
  schedule, before \<open>init\<close>: no goroutine is started and no query is made.
\<close>

theorem record_type_table_closed:
  "(recordTypeMap m = Some c \<longleftrightarrow>
      (m, c) \<in> {(''A'', 1), (''NS'', 2), (''CNAME'', 5), (''SOA'', 6),
                (''PTR'', 12), (''MX'', 15), (''TXT'', 16), (''AAAA'', 28)}) \<and>
   (m \<notin> {''A'', ''NS'', ''CNAME'', ''SOA'', ''PTR'', ''MX'', ''TXT'', ''AAAA''} \<longrightarrow>
      recordTypeMap m = None \<and>
      (recordTypeStr fl = m \<longrightarrow> program mem log_opens fl schedule = Inl 1))"
proof -
  have a: "recordTypeMap m = Some c \<longleftrightarrow>
      (m, c) \<in> {(''A'', 1), (''NS'', 2), (''CNAME'', 5), (''SOA'', 6),
                (''PTR'', 12), (''MX'', 15), (''TXT'', 16), (''AAAA'', 28)}"
    by (auto simp: recordTypeMap_def recordTypeTable_def split: if_splits)
  have b: "recordTypeMap m = None"
    if "m \<notin> {''A'', ''NS'', ''CNAME'', ''SOA'', ''PTR'', ''MX'', ''TXT'', ''AAAA''}"
    using that by (simp add: recordTypeMap_def recordTypeTable_def)
  have c: "program mem log_opens fl schedule = Inl 1"
    if "recordTypeMap m = None" "recordTypeStr fl = m"
    using that by (simp add: program_def startup_def Let_def)
  show ?thesis
  proof (intro conjI impI)
    show "recordTypeMap m = Some c \<longleftrightarrow>
      (m, c) \<in> {(''A'', 1), (''NS'', 2), (''CNAME'', 5), (''SOA'', 6),
                (''PTR'', 12), (''MX'', 15), (''TXT'', 16), (''AAAA'', 28)}"
      by (rule a)
  next
    assume "m \<notin> {''A'', ''NS'', ''CNAME'', ''SOA'', ''PTR'', ''MX'', ''TXT'', ''AAAA''}"
    then show "recordTypeMap m = None" by (rule b)
  next
    assume "m \<notin> {''A'', ''NS'', ''CNAME'', ''SOA'', ''PTR'', ''MX'', ''TXT'', ''AAAA''}"
      and "recordTypeStr fl = m"
    with b show "program mem log_opens fl schedule = Inl 1" by (intro c)
  qed
qed

theorem record_type_table_closed_witness:
  "''ZZZ'' \<notin> {''A'', ''NS'', ''CNAME'', ''SOA'', ''PTR'', ''MX'', ''TXT'', ''AAAA''} \<and>
   recordTypeMap ''ZZZ'' = None \<and>
   program example_mem True (example_flags ''ZZZ'') complete_schedule = Inl 1 \<and>
   recordTypeMap ''AAAA'' = Some 28"
  using record_type_table_closed [of "''ZZZ''" 0 "example_flags ''ZZZ''" example_mem True
      complete_schedule]
    record_type_table_closed [of "''AAAA''" 28]
  by (simp add: example_flags_def)

text \<open>
  C8. The claim: when no port is present, \<open>:53\<close> is appended. The code tests for a
  colon, not for a port: the IPv6 address \<open>::1\<close> carries no port and is left as it is.
  Start-up stores \<open>::1\<close> in the configuration, and the worker of the program dials
  \<open>::1\<close>; the dial fails.
\<close>

theorem default_port_counterexample:
  "\<not> spec_port_present ''::1'' \<and> withDefaultPort ''::1'' = ''::1'' \<and>
   withDefaultPort ''::1'' \<noteq> spec_withDefaultPort ''::1'' \<and>
   map_sum id dnsServer (startup True ipv6_flags) = Inr ''::1'' \<and>
   (case program example_mem True ipv6_flags
           [Producer, Producer, Handoff 0, Query 0 friendly_net] of
      Inr (Some s) \<Rightarrow> netlog s
    | _ \<Rightarrow> []) = [NetDial ''::1'', LogPrintf ''Error connecting to DNS server'']"
  by (simp add: spec_port_present_def spec_withDefaultPort_def withDefaultPort_def
      ipv6_flags_def program_def startup_def recordTypeMap_def recordTypeTable_def
      Flags.defs RunConfig.defs run_eval)

text \<open>
  C8, as amended: \<open>:53\<close> is appended exactly when the address contains no colon;
  otherwise the address is used unchanged. So an address with a port is used unchanged,
  and an address without a colon, which has no port, gets \<open>:53\<close>. Start-up stores the
  address so completed in the configuration; an attempt dials the address it is given,
  once; the step of a worker at line 130 makes the calls of an attempt on the address of
  the configuration; and in every run of the program every dial goes to the completed
  address, with a dial for every result sent or about to be sent.
\<close>

theorem default_port_by_colon:
  "withDefaultPort a = (if CHR '':'' \<in> set a then a else a @ '':53'') \<and>
   (spec_port_present a \<longrightarrow> withDefaultPort a = a) \<and>
   (CHR '':'' \<notin> set a \<longrightarrow> \<not> spec_port_present a \<and> withDefaultPort a = a @ '':53'') \<and>
   (\<forall>c. startup log_opens fl = Inr c \<longrightarrow>
      dnsServer c =
        (if CHR '':'' \<in> set (dnsServer fl) then dnsServer fl else dnsServer fl @ '':53'')) \<and>
   dials (fst (performDNSQuery env srv d rt)) = [srv] \<and>
   (\<forall>i s s'. step cfg (Query i env) s = Some s' \<longrightarrow>
      netlog s' =
        netlog s @ fst (performDNSQuery env (dnsServer cfg) (domain cfg) (recordType cfg))) \<and>
   (\<forall>s. program mem log_opens fl schedule = Inr (Some s) \<longrightarrow>
      list_all
        (\<lambda>address. address =
           (if CHR '':'' \<in> set (dnsServer fl) then dnsServer fl else dnsServer fl @ '':53''))
        (dials (netlog s)) \<and>
      sent s + sending (workers s) \<le> length (dials (netlog s)))"
proof -
  have a: "withDefaultPort x = (if CHR '':'' \<in> set x then x else x @ '':53'')" for x
    by (simp add: withDefaultPort_def strings_Contains_char)
  have b: "dnsServer c =
      (if CHR '':'' \<in> set (dnsServer fl) then dnsServer fl else dnsServer fl @ '':53'')"
    if "startup log_opens fl = Inr c" for c
    using that
    by (auto simp: startup_def Let_def a Flags.defs RunConfig.defs
        split: if_splits option.splits)
  have c: "list_all
        (\<lambda>address. address =
           (if CHR '':'' \<in> set (dnsServer fl) then dnsServer fl else dnsServer fl @ '':53''))
        (dials (netlog s)) \<and>
      sent s + sending (workers s) \<le> length (dials (netlog s))"
    if "program mem log_opens fl schedule = Inr (Some s)" for s
  proof -
    from that obtain c where s: "startup log_opens fl = Inr c"
      and r: "run c schedule (init mem c) = Some s"
      by (auto simp: program_def split: sum.splits)
    from netlog_inv_run [OF r] b [OF s] show ?thesis by (simp add: netlog_inv_def)
  qed
  show ?thesis
  proof (intro conjI allI impI)
    show "withDefaultPort a = (if CHR '':'' \<in> set a then a else a @ '':53'')" by (rule a)
  next
    assume "spec_port_present a"
    then show "withDefaultPort a = a" by (simp add: a spec_port_present_def)
  next
    assume "CHR '':'' \<notin> set a"
    then show "\<not> spec_port_present a" by (simp add: spec_port_present_def)
  next
    assume "CHR '':'' \<notin> set a"
    then show "withDefaultPort a = a @ '':53''" by (simp add: a)
  next
    fix c assume "startup log_opens fl = Inr c"
    then show "dnsServer c =
        (if CHR '':'' \<in> set (dnsServer fl) then dnsServer fl else dnsServer fl @ '':53'')"
      by (rule b)
  next
    show "dials (fst (performDNSQuery env srv d rt)) = [srv]" by (rule performDNSQuery_dials)
  next
    fix i s s' assume "step cfg (Query i env) s = Some s'"
    then show "netlog s' =
        netlog s @ fst (performDNSQuery env (dnsServer cfg) (domain cfg) (recordType cfg))"
      by (rule query_step_logs)
  next
    fix s assume "program mem log_opens fl schedule = Inr (Some s)"
    from c [OF this] show "list_all
        (\<lambda>address. address =
           (if CHR '':'' \<in> set (dnsServer fl) then dnsServer fl else dnsServer fl @ '':53''))
        (dials (netlog s))" by simp
  next
    fix s assume "program mem log_opens fl schedule = Inr (Some s)"
    from c [OF this] show "sent s + sending (workers s) \<le> length (dials (netlog s))" by simp
  qed
qed

theorem default_port_by_colon_witness:
  "withDefaultPort ''8.8.8.8'' = ''8.8.8.8:53'' \<and> spec_port_present ''8.8.8.8:53'' \<and>
   withDefaultPort ''8.8.8.8:53'' = ''8.8.8.8:53'' \<and> CHR '':'' \<notin> set ''8.8.8.8'' \<and>
   startup True (example_flags ''A'') = Inr (example_cfg 1 2) \<and>
   (\<exists>s. program example_mem True (example_flags ''A'') complete_schedule = Inr (Some s) \<and>
        dials (netlog s) = [''8.8.8.8:53'', ''8.8.8.8:53''] \<and> sent s = 2)"
proof -
  define s where "s = the (run (example_cfg 1 2) complete_schedule (init example_mem (example_cfg 1 2)))"
  have st: "startup True (example_flags ''A'') = Inr (example_cfg 1 2)"
    by (simp add: startup_def example_flags_def example_cfg_def withDefaultPort_def
        recordTypeMap_def recordTypeTable_def Flags.defs RunConfig.defs)
  have r: "run (example_cfg 1 2) complete_schedule (init example_mem (example_cfg 1 2)) = Some s"
    by (simp add: s_def complete_schedule_def run_eval)
  have p: "program example_mem True (example_flags ''A'') complete_schedule = Inr (Some s)"
    by (simp add: program_def st r)
  have d: "dials (netlog s) = [''8.8.8.8:53'', ''8.8.8.8:53'']" and n: "sent s = 2"
    by (simp_all add: s_def complete_schedule_def run_eval)
  from default_port_by_colon [of "''8.8.8.8''" True "example_flags ''A''" friendly_net
      "''8.8.8.8:53''" "''example.com''" 1 "example_cfg 1 2" example_mem complete_schedule]
    default_port_by_colon [of "''8.8.8.8:53''"]
  have "withDefaultPort ''8.8.8.8'' = ''8.8.8.8:53'' \<and>
    withDefaultPort ''8.8.8.8:53'' = ''8.8.8.8:53'' \<and> CHR '':'' \<notin> set ''8.8.8.8''"
    by simp
  moreover have "spec_port_present ''8.8.8.8:53''" by (simp add: spec_port_present_def)
  ultimately show ?thesis using st p d n by blast
qed

text \<open>
  C9. The message of an attempt is built exactly when \<open>domain + "."\<close> fits a name, and
  then it is the recursive query with the one question named \<open>domain + "."\<close>, which is
  never the domain itself, of the type asked and the class \<open>IN\<close>. An attempt writes
  exactly one datagram, the packing of that message, when the dial succeeds and the
  message packs, and no datagram otherwise. Start-up stores the domain of the flag
  unchanged; the step of a worker at line 130 makes the calls of an attempt for the domain
  of the configuration; and every datagram written in a run is the packing of a message
  whose one question is named \<open>domain + "."\<close>. The dot is added also to a domain that ends
  in one: the name \<open>example.com..\<close> has an empty label, which does not pack, and nothing
  is written.
\<close>

theorem question_name_is_domain_dot:
  "buildQuery mid d rt =
     (if length d < nameLen
      then Inr \<lparr>ID = mid, RecursionDesired = True,
                Questions = [\<lparr>Name = d @ ''.'', Type = rt, Class = ClassINET\<rparr>]\<rparr>
      else Inl CreatingName) \<and>
   (\<forall>m. buildQuery mid d rt = Inr m \<longrightarrow>
      Questions m = [\<lparr>Name = d @ ''.'', Type = rt, Class = ClassINET\<rparr>]) \<and>
   datagrams (fst (performDNSQuery env srv d rt)) =
     (if dial env srv
      then (case buildQuery (rand_id env) d rt of
              Inl p \<Rightarrow> []
            | Inr m \<Rightarrow> (case pack env m of None \<Rightarrow> [] | Some packed \<Rightarrow> [packed]))
      else []) \<and>
   (\<forall>b. NetWrite b \<in> set (fst (performDNSQuery env srv d rt)) \<longrightarrow>
      (\<exists>m. buildQuery (rand_id env) d rt = Inr m \<and> pack env m = Some b)) \<and>
   d @ ''.'' \<noteq> d \<and>
   (\<forall>c. startup log_opens fl = Inr c \<longrightarrow> domain c = domain fl) \<and>
   (\<forall>i s s'. step cfg (Query i env) s = Some s' \<longrightarrow>
      netlog s' =
        netlog s @ fst (performDNSQuery env (dnsServer cfg) (domain cfg) (recordType cfg))) \<and>
   (\<forall>s. run cfg es (init mem cfg) = Some s \<longrightarrow>
      list_all
        (\<lambda>packed. \<exists>(env::net_env) m.
           buildQuery (rand_id env) (domain cfg) (recordType cfg) = Inr m \<and>
           Questions m =
             [\<lparr>Name = domain cfg @ ''.'', Type = recordType cfg, Class = ClassINET\<rparr>] \<and>
           pack env m = Some packed)
        (datagrams (netlog s)))"
proof (intro conjI allI impI)
  show "buildQuery mid d rt =
     (if length d < nameLen
      then Inr \<lparr>ID = mid, RecursionDesired = True,
                Questions = [\<lparr>Name = d @ ''.'', Type = rt, Class = ClassINET\<rparr>]\<rparr>
      else Inl CreatingName)"
    by (rule buildQuery_eq)
next
  fix m assume "buildQuery mid d rt = Inr m"
  then show "Questions m = [\<lparr>Name = d @ ''.'', Type = rt, Class = ClassINET\<rparr>]"
    by (auto simp: buildQuery_eq split: if_splits)
next
  show "datagrams (fst (performDNSQuery env srv d rt)) =
     (if dial env srv
      then (case buildQuery (rand_id env) d rt of
              Inl p \<Rightarrow> []
            | Inr m \<Rightarrow> (case pack env m of None \<Rightarrow> [] | Some packed \<Rightarrow> [packed]))
      else [])"
    by (rule performDNSQuery_datagrams)
next
  fix b assume "NetWrite b \<in> set (fst (performDNSQuery env srv d rt))"
  then show "\<exists>m. buildQuery (rand_id env) d rt = Inr m \<and> pack env m = Some b"
    by (auto simp: performDNSQuery_def split: option.splits if_splits sum.splits)
next
  show "d @ ''.'' \<noteq> d" by simp
next
  fix c assume "startup log_opens fl = Inr c"
  then show "domain c = domain fl"
    by (auto simp: startup_def Let_def Flags.defs RunConfig.defs split: if_splits option.splits)
next
  fix i s s' assume "step cfg (Query i env) s = Some s'"
  then show "netlog s' =
      netlog s @ fst (performDNSQuery env (dnsServer cfg) (domain cfg) (recordType cfg))"
    by (rule query_step_logs)
next
  fix s assume "run cfg es (init mem cfg) = Some s"
  then have "netlog_inv cfg s" by (rule netlog_inv_run)
  then have "list_all
        (\<lambda>packed. \<exists>(env::net_env) m.
           buildQuery (rand_id env) (domain cfg) (recordType cfg) = Inr m \<and>
           pack env m = Some packed)
        (datagrams (netlog s))"
    by (simp add: netlog_inv_def)
  then show "list_all
        (\<lambda>packed. \<exists>(env::net_env) m.
           buildQuery (rand_id env) (domain cfg) (recordType cfg) = Inr m \<and>
           Questions m =
             [\<lparr>Name = domain cfg @ ''.'', Type = recordType cfg, Class = ClassINET\<rparr>] \<and>
           pack env m = Some packed)
        (datagrams (netlog s))"
    by (rule list.pred_mono_strong) (auto simp: buildQuery_eq split: if_splits)
qed

theorem question_name_is_domain_dot_witness:
  "(\<exists>s. run (example_cfg 1 2) complete_schedule (init example_mem (example_cfg 1 2)) = Some s \<and>
      datagrams (netlog s) =
        [[7, 101, 120, 97, 109, 112, 108, 101, 3, 99, 111, 109, 0],
         [7, 101, 120, 97, 109, 112, 108, 101, 3, 99, 111, 109, 0]]) \<and>
   example_pack \<lparr>ID = 7, RecursionDesired = True,
        Questions = [\<lparr>Name = ''example.com.'', Type = 1, Class = 1\<rparr>]\<rparr> =
     Some [7, 101, 120, 97, 109, 112, 108, 101, 3, 99, 111, 109, 0] \<and>
   buildQuery 7 ''example.com.'' 1 =
     Inr \<lparr>ID = 7, RecursionDesired = True,
          Questions = [\<lparr>Name = ''example.com..'', Type = 1, Class = 1\<rparr>]\<rparr> \<and>
   datagrams (fst (performDNSQuery friendly_net ''8.8.8.8:53'' ''example.com.'' 1)) = []"
proof -
  define s where "s = the (run (example_cfg 1 2) complete_schedule (init example_mem (example_cfg 1 2)))"
  have r: "run (example_cfg 1 2) complete_schedule (init example_mem (example_cfg 1 2)) = Some s"
    by (simp add: s_def complete_schedule_def run_eval)
  have d: "datagrams (netlog s) =
        [[7, 101, 120, 97, 109, 112, 108, 101, 3, 99, 111, 109, 0],
         [7, 101, 120, 97, 109, 112, 108, 101, 3, 99, 111, 109, 0]]"
    by (simp add: s_def complete_schedule_def run_eval)
  have p: "example_pack \<lparr>ID = 7, RecursionDesired = True,
        Questions = [\<lparr>Name = ''example.com.'', Type = 1, Class = 1\<rparr>]\<rparr> =
     Some [7, 101, 120, 97, 109, 112, 108, 101, 3, 99, 111, 109, 0]"
    by (simp add: example_pack_def canonical_name_def name_labels_def pack_name_def)
  from question_name_is_domain_dot [of 7 "''example.com.''" 1 friendly_net "''8.8.8.8:53''"]
  have "buildQuery 7 ''example.com.'' 1 =
     Inr \<lparr>ID = 7, RecursionDesired = True,
          Questions = [\<lparr>Name = ''example.com..'', Type = 1, Class = 1\<rparr>]\<rparr> \<and>
   datagrams (fst (performDNSQuery friendly_net ''8.8.8.8:53'' ''example.com.'' 1)) = []"
    by (simp add: nameLen_def ClassINET_def friendly_net_def example_pack_def canonical_name_def
        name_labels_def)
  with r d p show ?thesis by blast
qed

text \<open>
  C10. With \<open>-concurrency 0\<close>, in every run and for every limit: no token is handed
  over, no result is sent or aggregated, and the counter main loads is 0. The closer
  closes the result channel in the first two steps; the closer, the aggregator and main
  alone reach the report with \<open>done\<close> closed, nothing aggregated and
  \<open>finalQueryCount = 0\<close>; until then one of the three can always move; and no run has
  more than 12 steps.
\<close>

theorem no_workers_no_results:
  assumes "sint (concurrency cfg) = 0" "run cfg es (init mem cfg) = Some s"
  shows "tokens s = 0 \<and> sent s = 0 \<and> aggregated s = 0 \<and> queryCount s = 0 \<and>
         finalQueryCount s = 0 \<and>
         (\<exists>t. run cfg [Closer, Closer] (init mem cfg) = Some t \<and> results_closed t) \<and>
         (\<exists>t. run cfg idle_schedule (init mem cfg) = Some t \<and> done_closed t \<and> aggregated t = 0 \<and>
               mainpc t = MReporting \<and> finalQueryCount t = 0) \<and>
         (alive s \<and> mainpc s \<noteq> MReporting \<longrightarrow>
            step cfg Closer s \<noteq> None \<or> step cfg Aggregator s \<noteq> None \<or> step cfg Main s \<noteq> None) \<and>
         length es \<le> 12"
proof -
  from assms have idle: "idle_inv s" by (simp add: idle_inv_run)
  from assms(2) have i: "inv mem cfg s" by (rule inv_run)
  have a: "\<exists>t. run cfg [Closer, Closer] (init mem cfg) = Some t \<and> results_closed t"
    using assms(1)
    by (simp add: step_def alive_def closer_step_def init_unfold Let_def pool_fits_def
        makechan_in_range_def)
  have b: "\<exists>t. run cfg idle_schedule (init mem cfg) = Some t \<and> done_closed t \<and> aggregated t = 0 \<and>
               mainpc t = MReporting \<and> finalQueryCount t = 0"
    using assms(1)
    by (simp add: idle_schedule_def step_def alive_def closer_step_def aggregator_step_def
        main_step_def init_unfold Let_def pool_fits_def makechan_in_range_def)
  have c: "step cfg Closer s \<noteq> None \<or> step cfg Aggregator s \<noteq> None \<or> step cfg Main s \<noteq> None"
    if "alive s \<and> mainpc s \<noteq> MReporting"
    using that idle i drain_progress [of mem cfg s] by (simp add: idle_inv_def)
  from idle have "tokens s \<le> 0" "aggregated s \<le> 0" by (simp_all add: idle_inv_def)
  with assms(2) have "length es + potential 0 s \<le> potential 0 (init mem cfg)" by (rule run_potential)
  with potential_init [of 0 mem cfg] assms(1) have d: "length es \<le> 12" by simp
  from idle a b c d show ?thesis by (simp add: idle_inv_def)
qed

theorem no_workers_no_results_witness:
  "\<exists>s. run (example_cfg 0 (- 1)) ([Producer, Producer] @ idle_schedule)
          (init example_mem (example_cfg 0 (- 1))) = Some s \<and>
     producer s = PPush \<and> mainpc s = MReporting \<and> done_closed s \<and> tokens s = 0 \<and> sent s = 0 \<and>
     aggregated s = 0 \<and> finalQueryCount s = 0"
proof -
  define s where "s = the (run (example_cfg 0 (- 1)) ([Producer, Producer] @ idle_schedule)
      (init example_mem (example_cfg 0 (- 1))))"
  have r: "run (example_cfg 0 (- 1)) ([Producer, Producer] @ idle_schedule)
      (init example_mem (example_cfg 0 (- 1))) = Some s"
    by (simp add: s_def idle_schedule_def run_eval)
  have p: "producer s = PPush" and m: "mainpc s = MReporting" and d: "done_closed s"
    by (simp_all add: s_def idle_schedule_def run_eval)
  have n: "sint (concurrency (example_cfg 0 (- 1))) = 0" by (simp add: example_cfg_def)
  from no_workers_no_results [OF n r]
  have "tokens s = 0 \<and> sent s = 0 \<and> aggregated s = 0 \<and> finalQueryCount s = 0" by simp
  with r p m d show ?thesis by blast
qed

end
